theory Spec2Isabelle
  imports
    Main
    "HOL-Library.AList"
    "HOL-Library.Sublist"
    "HOL-Library.Char_ord"
    "HOL-Library.List_Lexorder"
    "HOL-Library.Multiset"
begin

section \<open>JavaScript values, objects and Maps\<close>

text \<open>
  The record store keeps schema-less records (\<^verbatim>\<open>Record<string, unknown>\<close>). A field value
  is one of the JavaScript primitives or an object. Strict equality \<^verbatim>\<open>===\<close> compares
  primitives by value and objects by reference, so an object is represented by its
  reference, together with the string that \<^verbatim>\<open>String(v)\<close> yields for it
  (\<^verbatim>\<open>[object Object]\<close> for a plain object, the joined elements for an array). With this
  representation \<^verbatim>\<open>===\<close> is HOL equality. Numbers are the integral ones (no \<^verbatim>\<open>NaN\<close>, no
  fractions); strings are lists of 8-bit characters.
\<close>

datatype jsval =
    JUndefined
  | JNull
  | JBool bool
  | JNum int
  | JStr string
  | JObject nat string

text \<open>An object literal: its own properties in insertion order.\<close>

type_synonym jsobject = "(string \<times> jsval) list"

text \<open>\<^verbatim>\<open>obj[key]\<close>: a missing property reads as \<^verbatim>\<open>undefined\<close>.\<close>

definition get_prop :: "jsobject \<Rightarrow> string \<Rightarrow> jsval" where
  "get_prop obj key = (case map_of obj key of None \<Rightarrow> JUndefined | Some v \<Rightarrow> v)"

text \<open>
  \<^verbatim>\<open>{ ...obj, key: v }\<close>: an existing property keeps its place and takes the new value, a
  new one is appended.
\<close>

definition obj_set :: "jsobject \<Rightarrow> string \<Rightarrow> jsval \<Rightarrow> jsobject" where
  "obj_set obj key v = AList.update key v obj"

text \<open>\<^verbatim>\<open>{ ...obj, ...src }\<close>: the properties of \<open>src\<close> are copied over \<open>obj\<close> one by one.\<close>

definition spread :: "jsobject \<Rightarrow> jsobject \<Rightarrow> jsobject" where
  "spread obj src = foldl (\<lambda>acc kv. obj_set acc (fst kv) (snd kv)) obj src"

text \<open>Truthiness, as used by \<^verbatim>\<open>||\<close> and \<^verbatim>\<open>!\<close>.\<close>

fun truthy :: "jsval \<Rightarrow> bool" where
  "truthy JUndefined = False"
| "truthy JNull = False"
| "truthy (JBool b) = b"
| "truthy (JNum n) = (n \<noteq> 0)"
| "truthy (JStr s) = (s \<noteq> [])"
| "truthy (JObject r s) = True"

text \<open>
  A JavaScript \<^verbatim>\<open>Map\<close> iterates in insertion order; \<^verbatim>\<open>set\<close> on a present key replaces the
  value in place, \<^verbatim>\<open>delete\<close> reports whether the key was present.
\<close>

definition Map_has :: "('k \<times> 'v) list \<Rightarrow> 'k \<Rightarrow> bool" where
  "Map_has m k = (map_of m k \<noteq> None)"

definition Map_get :: "('k \<times> 'v) list \<Rightarrow> 'k \<Rightarrow> 'v option" where
  "Map_get m k = map_of m k"

definition Map_set :: "('k \<times> 'v) list \<Rightarrow> 'k \<Rightarrow> 'v \<Rightarrow> ('k \<times> 'v) list" where
  "Map_set m k v = AList.update k v m"

definition Map_delete :: "('k \<times> 'v) list \<Rightarrow> 'k \<Rightarrow> bool \<times> ('k \<times> 'v) list" where
  "Map_delete m k = (Map_has m k, AList.delete k m)"


text \<open>
  What a \<^verbatim>\<open>throw\<close> carries: an \<^verbatim>\<open>Error\<close> instance with its message, the \<^verbatim>\<open>TypeError\<close> of a
  property access on \<^verbatim>\<open>undefined\<close>, or any other value.
\<close>

datatype thrown =
    Error string
  | TypeError string
  | Thrown jsval

section \<open>The in-memory data service\<close>

record Resource =
  uri :: string
  name :: string
  description :: "string option"

record InMemoryDataService =
  resources :: "(string \<times> Resource) list"
  data :: "(string \<times> (jsval \<times> jsobject) list) list"
  resourcePrefix :: string

text \<open>
  \<^verbatim>\<open>String.prototype.toLowerCase\<close> follows the Unicode case mapping and may change the length
  of a string, so it is a parameter of the operations that call it. On strings of ASCII
  characters it is the map below, which serves to run those operations on concrete inputs.
\<close>

definition ascii_toLowerCase_char :: "char \<Rightarrow> char" where
  "ascii_toLowerCase_char c =
     (case map_of (zip ''ABCDEFGHIJKLMNOPQRSTUVWXYZ'' ''abcdefghijklmnopqrstuvwxyz'') c of
        Some l \<Rightarrow> l
      | None \<Rightarrow> c)"

definition ascii_toLowerCase :: "string \<Rightarrow> string" where
  "ascii_toLowerCase s = map ascii_toLowerCase_char s"

text \<open>The character class \<^verbatim>\<open>[a-z0-9]\<close>.\<close>

definition is_a_z_0_9 :: "char \<Rightarrow> bool" where
  "is_a_z_0_9 c =
     ((CHR ''a'' \<le> c \<and> c \<le> CHR ''z'') \<or> (CHR ''0'' \<le> c \<and> c \<le> CHR ''9''))"

text \<open>
  \<^verbatim>\<open>.replace(/[^a-z0-9]/g, '-')\<close>: the pattern matches one character at a time, and the
  global flag replaces each match.
\<close>

definition replace_non_a_z_0_9 :: "string \<Rightarrow> string" where
  "replace_non_a_z_0_9 s = map (\<lambda>c. if is_a_z_0_9 c then c else CHR ''-'') s"

text \<open>
  \<^verbatim>\<open>registerResource\<close>: returns the resource and the service with both maps set. Its first
  argument is the host's \<^verbatim>\<open>toLowerCase\<close>.
\<close>

definition registerResource ::
  "(string \<Rightarrow> string) \<Rightarrow> InMemoryDataService \<Rightarrow> string \<Rightarrow> string option
    \<Rightarrow> Resource \<times> InMemoryDataService" where
  "registerResource toLowerCase svc nm descr =
     (let ident = replace_non_a_z_0_9 (toLowerCase nm);
          u = resourcePrefix svc @ ident;
          resource = \<lparr>uri = u, name = nm, description = descr\<rparr>
      in (resource,
          svc\<lparr>resources := Map_set (resources svc) u resource,
              data := Map_set (data svc) u []\<rparr>))"

text \<open>
  The derivation as the specification words it, for comparison with the code: every
  maximal run of non-alphanumeric characters becomes a single separator.
\<close>

fun spec_collapse :: "bool \<Rightarrow> string \<Rightarrow> string" where
  "spec_collapse in_run [] = []"
| "spec_collapse in_run (c # cs) =
     (if is_a_z_0_9 c then c # spec_collapse False cs
      else if in_run then spec_collapse True cs
      else CHR ''-'' # spec_collapse True cs)"

definition spec_collapse_runs :: "string \<Rightarrow> string" where
  "spec_collapse_runs s = spec_collapse False s"

text \<open>\<^verbatim>\<open>validateResource\<close>: \<open>None\<close> when the resource exists, the thrown error otherwise.\<close>

definition validateResource :: "InMemoryDataService \<Rightarrow> string \<Rightarrow> thrown option" where
  "validateResource svc u =
     (if \<not> Map_has (resources svc) u then Some (Error (''Resource not found: '' @ u))
      else None)"

text \<open>\<^verbatim>\<open>this.data.get(uri)!\<close>: the non-null assertion is unchecked, a miss is a \<^verbatim>\<open>TypeError\<close>.\<close>

definition undefined_access :: thrown where
  "undefined_access = TypeError ''Cannot read properties of undefined''"

text \<open>
  \<^verbatim>\<open>createRecord\<close>. The generated identifier and the clock reading are inputs: \<open>uuid\<close> is
  what \<^verbatim>\<open>uuidv4()\<close> returns, \<open>timestamp\<close> what \<^verbatim>\<open>new Date().toISOString()\<close> returns.
\<close>

definition createRecord ::
  "string \<Rightarrow> string \<Rightarrow> InMemoryDataService \<Rightarrow> string \<Rightarrow> jsobject
    \<Rightarrow> (thrown + jsobject) \<times> InMemoryDataService" where
  "createRecord uuid timestamp svc u dat =
     (case validateResource svc u of
        Some e \<Rightarrow> (Inl e, svc)
      | None \<Rightarrow>
          (let rid = (if truthy (get_prop dat ''id'') then get_prop dat ''id'' else JStr uuid);
               record =
                 obj_set (obj_set (spread [(''id'', rid)] dat)
                   ''createdAt'' (JStr timestamp)) ''updatedAt'' (JStr timestamp)
           in case Map_get (data svc) u of
                None \<Rightarrow> (Inl undefined_access, svc)
              | Some resourceData \<Rightarrow>
                  (Inr record,
                   svc\<lparr>data := Map_set (data svc) u (Map_set resourceData rid record)\<rparr>)))"

definition updateRecord ::
  "string \<Rightarrow> InMemoryDataService \<Rightarrow> string \<Rightarrow> string \<Rightarrow> jsobject
    \<Rightarrow> (thrown + jsobject) \<times> InMemoryDataService" where
  "updateRecord timestamp svc u rid dat =
     (case validateResource svc u of
        Some e \<Rightarrow> (Inl e, svc)
      | None \<Rightarrow>
          (case Map_get (data svc) u of
             None \<Rightarrow> (Inl undefined_access, svc)
           | Some resourceData \<Rightarrow>
               (case Map_get resourceData (JStr rid) of
                  None \<Rightarrow> (Inl (Error (''Record not found: '' @ rid)), svc)
                | Some existingRecord \<Rightarrow>
                    (let updatedRecord =
                           obj_set (obj_set (spread (spread [] existingRecord) dat)
                             ''id'' (JStr rid)) ''updatedAt'' (JStr timestamp)
                     in (Inr updatedRecord,
                         svc\<lparr>data := Map_set (data svc) u
                                 (Map_set resourceData (JStr rid) updatedRecord)\<rparr>)))))"

definition deleteRecord ::
  "InMemoryDataService \<Rightarrow> string \<Rightarrow> string \<Rightarrow> (thrown + bool) \<times> InMemoryDataService" where
  "deleteRecord svc u rid =
     (case validateResource svc u of
        Some e \<Rightarrow> (Inl e, svc)
      | None \<Rightarrow>
          (case Map_get (data svc) u of
             None \<Rightarrow> (Inl undefined_access, svc)
           | Some resourceData \<Rightarrow>
               (if \<not> Map_has resourceData (JStr rid)
                then (Inl (Error (''Record not found: '' @ rid)), svc)
                else (Inr (fst (Map_delete resourceData (JStr rid))),
                      svc\<lparr>data := Map_set (data svc) u
                              (snd (Map_delete resourceData (JStr rid)))\<rparr>))))"

text \<open>The record collection of a resource, empty when the resource has none.\<close>

definition records_of :: "InMemoryDataService \<Rightarrow> string \<Rightarrow> (jsval \<times> jsobject) list" where
  "records_of svc u = (case Map_get (data svc) u of None \<Rightarrow> [] | Some m \<Rightarrow> m)"

text \<open>A resource is registered when both maps of the service know its URI.\<close>

definition registered :: "InMemoryDataService \<Rightarrow> string \<Rightarrow> bool" where
  "registered svc u = (Map_has (resources svc) u \<and> Map_has (data svc) u)"

text \<open>A service used to run the operations on concrete inputs.\<close>

definition demo_service :: InMemoryDataService where
  "demo_service =
     \<lparr>resources = [(''mcp://users'', \<lparr>uri = ''mcp://users'', name = ''users'', description = None\<rparr>)],
      data = [(''mcp://users'',
               [(JStr ''u1'', [(''id'', JStr ''u1''), (''role'', JStr ''admin''),
                               (''createdAt'', JStr ''t0''), (''updatedAt'', JStr ''t0'')]),
                (JStr ''u2'', [(''id'', JStr ''u2''), (''role'', JStr ''user''),
                               (''createdAt'', JStr ''t0''), (''updatedAt'', JStr ''t0'')])])],
      resourcePrefix = ''mcp://''\<rparr>"

section \<open>Tool responses (utils)\<close>

text \<open>
  \<^verbatim>\<open>Number.prototype.toString\<close> on the integers, \<^verbatim>\<open>String(v)\<close> on the values, and
  \<^verbatim>\<open>Array.prototype.join\<close>.
\<close>

definition digit_char :: "nat \<Rightarrow> char" where
  "digit_char n = ''0123456789abcdef'' ! n"

fun decimal :: "nat \<Rightarrow> string" where
  "decimal n = (if n < 10 then [digit_char n] else decimal (n div 10) @ [digit_char (n mod 10)])"

declare decimal.simps [simp del]

definition Number_toString :: "int \<Rightarrow> string" where
  "Number_toString n = (if n < 0 then CHR ''-'' # decimal (nat (- n)) else decimal (nat n))"

fun String_of :: "jsval \<Rightarrow> string" where
  "String_of JUndefined = ''undefined''"
| "String_of JNull = ''null''"
| "String_of (JBool b) = (if b then ''true'' else ''false'')"
| "String_of (JNum n) = Number_toString n"
| "String_of (JStr s) = s"
| "String_of (JObject r s) = s"

fun join :: "string \<Rightarrow> string list \<Rightarrow> string" where
  "join sep [] = []"
| "join sep [x] = x"
| "join sep (x # y # ys) = x @ sep @ join sep (y # ys)"

text \<open>
  What a tool returns and what \<^verbatim>\<open>JSON.stringify\<close> serialises: a JSON value. A string is
  quoted with the escapes of \<^verbatim>\<open>QuoteJSONString\<close>: the quote, the backslash, and the control
  characters below \<^verbatim>\<open>0x20\<close>.
\<close>

datatype json =
    JsonNull
  | JsonBool bool
  | JsonNum int
  | JsonStr string
  | JsonArr "json list"
  | JsonObj "(string \<times> json) list"

definition QuoteJSONChar :: "char \<Rightarrow> string" where
  "QuoteJSONChar c =
     (if c = CHR 0x22 then [CHR 0x5C, CHR 0x22]
      else if c = CHR 0x5C then [CHR 0x5C, CHR 0x5C]
      else if c = CHR 0x08 then [CHR 0x5C, CHR ''b'']
      else if c = CHR 0x0C then [CHR 0x5C, CHR ''f'']
      else if c = CHR 0x0A then [CHR 0x5C, CHR ''n'']
      else if c = CHR 0x0D then [CHR 0x5C, CHR ''r'']
      else if c = CHR 0x09 then [CHR 0x5C, CHR ''t'']
      else if (of_char c :: nat) < 32
        then [CHR 0x5C, CHR ''u'', CHR ''0'', CHR ''0'',
              digit_char ((of_char c :: nat) div 16), digit_char ((of_char c :: nat) mod 16)]
      else [c])"

definition QuoteJSONString :: "string \<Rightarrow> string" where
  "QuoteJSONString s = CHR 0x22 # concat (map QuoteJSONChar s) @ [CHR 0x22]"

fun JSON_stringify :: "json \<Rightarrow> string" where
  "JSON_stringify JsonNull = ''null''"
| "JSON_stringify (JsonBool b) = (if b then ''true'' else ''false'')"
| "JSON_stringify (JsonNum n) = Number_toString n"
| "JSON_stringify (JsonStr s) = QuoteJSONString s"
| "JSON_stringify (JsonArr xs) = ''['' @ join '','' (map JSON_stringify xs) @ '']''"
| "JSON_stringify (JsonObj kvs) =
     ''{'' @ join '','' (map (\<lambda>(k, v). QuoteJSONString k @ '':'' @ JSON_stringify v) kvs) @ ''}''"

record TextContent =
  content_type :: string
  content_mimeType :: string
  content_text :: string

record CallToolResult =
  content :: "TextContent list"
  isError :: bool

definition formatToolResponse :: "json \<Rightarrow> bool \<Rightarrow> CallToolResult" where
  "formatToolResponse dat isErr =
     \<lparr>content = [\<lparr>content_type = ''text'', content_mimeType = ''application/json'',
                  content_text = JSON_stringify dat\<rparr>],
      isError = isErr\<rparr>"

text \<open>
  \<^verbatim>\<open>formatErrorResponse\<close>: the message of an \<^verbatim>\<open>Error\<close> instance, the string conversion of
  anything else.
\<close>

definition formatErrorResponse :: "string \<Rightarrow> thrown \<Rightarrow> CallToolResult" where
  "formatErrorResponse toolName error =
     (let errorMessage =
            (case error of Error msg \<Rightarrow> msg | TypeError msg \<Rightarrow> msg | Thrown v \<Rightarrow> String_of v)
      in formatToolResponse (JsonStr (''Error in tool '' @ toolName @ '': '' @ errorMessage)) True)"

text \<open>
  \<^verbatim>\<open>safeExecute\<close>: the function runs on the state of the world its closure reaches (the data
  service); a result is wrapped as a success, a throw as an error response.
\<close>

definition safeExecute ::
  "string \<Rightarrow> ('s \<Rightarrow> (thrown + json) \<times> 's) \<Rightarrow> 's \<Rightarrow> CallToolResult \<times> 's" where
  "safeExecute toolName fn st =
     (case fn st of
        (Inr result, st') \<Rightarrow> (formatToolResponse result False, st')
      | (Inl error, st') \<Rightarrow> (formatErrorResponse toolName error, st'))"

text \<open>
  A Zod schema is what its \<^verbatim>\<open>parse\<close> does: it returns the parsed value, throws a \<^verbatim>\<open>ZodError\<close>
  listing the issues, or throws something else. \<^verbatim>\<open>validateInput\<close> turns the issues into one
  \<^verbatim>\<open>Error\<close> and rethrows the rest.
\<close>

record ZodIssue =
  issue_path :: "string list"
  issue_message :: string

datatype parse_result =
    Parsed json
  | ZodError "ZodIssue list"
  | ParseThrows thrown

type_synonym ZodType = "json \<Rightarrow> parse_result"

definition validateInput :: "ZodType \<Rightarrow> json \<Rightarrow> thrown + json" where
  "validateInput schema dat =
     (case schema dat of
        Parsed v \<Rightarrow> Inr v
      | ZodError errors \<Rightarrow>
          Inl (Error (''Invalid input: '' @
            join ''; '' (map (\<lambda>e. join ''.'' (issue_path e) @ '': '' @ issue_message e) errors)))
      | ParseThrows e \<Rightarrow> Inl e)"

section \<open>The MCP server: tool dispatch and dynamic registration\<close>

record CallToolRequest =
  params_name :: string
  params_arguments :: json

text \<open>
  Every case of the \<^verbatim>\<open>switch\<close> in \<^verbatim>\<open>handleCallTool\<close>, and every registered tool, has the same
  shape: inside \<^verbatim>\<open>safeExecute\<close> the arguments are validated against a schema and handed to
  a function that acts on the data service.
\<close>

type_synonym 's handler = "json \<Rightarrow> 's \<Rightarrow> (thrown + json) \<times> 's"

definition validate_then ::
  "ZodType \<Rightarrow> 's handler \<Rightarrow> json \<Rightarrow> 's \<Rightarrow> (thrown + json) \<times> 's" where
  "validate_then inputSchema handler arguments st =
     (case validateInput inputSchema arguments of
        Inl e \<Rightarrow> (Inl e, st)
      | Inr args \<Rightarrow> handler args st)"

text \<open>
  The six built-in cases are given by their schemas and by what they do with the validated
  arguments (a call of the data service, whose implementation is the server's parameter).
\<close>

record 's BuiltinTool =
  builtin_schema :: ZodType
  builtin_body :: "'s handler"

record 's Builtins =
  list_records :: "'s BuiltinTool"
  search_records :: "'s BuiltinTool"
  get_record :: "'s BuiltinTool"
  create_record :: "'s BuiltinTool"
  update_record :: "'s BuiltinTool"
  delete_record :: "'s BuiltinTool"

record ToolInfo =
  tool_name :: string
  tool_description :: string

text \<open>
  The SDK server keeps one handler per request schema (\<^verbatim>\<open>setRequestHandler\<close>) and answers a
  request of the protocol with the handler kept for its schema. The handlers for listing
  and reading resources play no part below and are left out. A listing handler takes no
  argument and reads no state, so it is the list it returns.
\<close>

record 's Server =
  ListToolsRequest_handler :: "ToolInfo list"
  CallToolRequest_handler :: "CallToolRequest \<Rightarrow> 's \<Rightarrow> CallToolResult \<times> 's"

text \<open>
  The server object: the SDK server it owns, and the two members that \<^verbatim>\<open>registerTool\<close>
  re-assigns.
\<close>

record 's MCPServer =
  server :: "'s Server"
  handleListTools :: "ToolInfo list"
  handleCallTool :: "CallToolRequest \<Rightarrow> 's \<Rightarrow> CallToolResult \<times> 's"

text \<open>
  The method \<^verbatim>\<open>handleCallTool\<close> of the class. No case lets a throw escape \<^verbatim>\<open>safeExecute\<close>,
  so the outer \<^verbatim>\<open>catch\<close> has nothing to catch.
\<close>

definition run_builtin ::
  "string \<Rightarrow> 's BuiltinTool \<Rightarrow> CallToolRequest \<Rightarrow> 's \<Rightarrow> CallToolResult \<times> 's" where
  "run_builtin toolName t request st =
     safeExecute toolName
       (validate_then (builtin_schema t) (builtin_body t) (params_arguments request)) st"

definition MCPServer_handleCallTool ::
  "'s Builtins \<Rightarrow> CallToolRequest \<Rightarrow> 's \<Rightarrow> CallToolResult \<times> 's" where
  "MCPServer_handleCallTool b request st =
     (let toolName = params_name request in
      if toolName = ''list_records'' then run_builtin toolName (list_records b) request st
      else if toolName = ''search_records'' then run_builtin toolName (search_records b) request st
      else if toolName = ''get_record'' then run_builtin toolName (get_record b) request st
      else if toolName = ''create_record'' then run_builtin toolName (create_record b) request st
      else if toolName = ''update_record'' then run_builtin toolName (update_record b) request st
      else if toolName = ''delete_record'' then run_builtin toolName (delete_record b) request st
      else (formatErrorResponse toolName (Thrown (JStr (''Unknown tool: '' @ toolName))), st))"

definition MCPServer_handleListTools :: "ToolInfo list" where
  "MCPServer_handleListTools =
     [\<lparr>tool_name = ''list_records'', tool_description = ''List records from a resource''\<rparr>,
      \<lparr>tool_name = ''search_records'',
        tool_description = ''Search for records containing specific text''\<rparr>,
      \<lparr>tool_name = ''get_record'', tool_description = ''Get a specific record by ID''\<rparr>,
      \<lparr>tool_name = ''create_record'', tool_description = ''Create a new record in a resource''\<rparr>,
      \<lparr>tool_name = ''update_record'', tool_description = ''Update a record in a resource''\<rparr>,
      \<lparr>tool_name = ''delete_record'', tool_description = ''Delete a record from a resource''\<rparr>]"

text \<open>
  The constructor. On a new object both members are the methods of the class, and
  \<^verbatim>\<open>initializeHandlers\<close> hands \<^verbatim>\<open>this.handleListTools.bind(this)\<close> and
  \<^verbatim>\<open>this.handleCallTool.bind(this)\<close> to the SDK server: a bound function keeps the function
  it was made from, here the method of the class.
\<close>

definition MCPServer_new :: "'s Builtins \<Rightarrow> 's MCPServer" where
  "MCPServer_new b =
     \<lparr>server =
        \<lparr>ListToolsRequest_handler = MCPServer_handleListTools,
         CallToolRequest_handler = MCPServer_handleCallTool b\<rparr>,
      handleListTools = MCPServer_handleListTools,
      handleCallTool = MCPServer_handleCallTool b\<rparr>"

text \<open>
  \<^verbatim>\<open>registerTool\<close> wraps both members: the new listing appends the tool to what the previous
  one returns, the new call handler tests the new name first and hands every other request
  to the previous handler. It assigns the two members of the object and nothing else: the
  handlers kept by the SDK server stay as the constructor set them.
\<close>

definition registerTool ::
  "'s MCPServer \<Rightarrow> string \<Rightarrow> string \<Rightarrow> ZodType \<Rightarrow> 's handler \<Rightarrow> 's MCPServer" where
  "registerTool srv toolName descr inputSchema handler =
     (let existingHandler = handleListTools srv;
          existingCallHandler = handleCallTool srv
      in srv\<lparr>handleListTools :=
                existingHandler @ [\<lparr>tool_name = toolName, tool_description = descr\<rparr>],
              handleCallTool :=
                (\<lambda>request.
                   if params_name request = toolName
                   then safeExecute toolName
                          (validate_then inputSchema handler (params_arguments request))
                   else existingCallHandler request)\<rparr>)"

text \<open>A sequence of registrations, applied in order.\<close>

record 's Registration =
  reg_toolName :: string
  reg_description :: string
  reg_inputSchema :: ZodType
  reg_handler :: "'s handler"

definition register_all :: "'s MCPServer \<Rightarrow> 's Registration list \<Rightarrow> 's MCPServer" where
  "register_all srv regs =
     foldl (\<lambda>s r. registerTool s (reg_toolName r) (reg_description r)
                      (reg_inputSchema r) (reg_handler r)) srv regs"

definition builtin_names :: "string list" where
  "builtin_names = [''list_records'', ''search_records'', ''get_record'', ''create_record'',
     ''update_record'', ''delete_record'']"

text \<open>Tools used to run the dispatcher on concrete inputs: each answers with its label.\<close>

definition accept_all :: ZodType where
  "accept_all dat = Parsed dat"

definition answer :: "string \<Rightarrow> unit handler" where
  "answer label args st = (Inr (JsonStr label), st)"

definition demo_builtins :: "unit Builtins" where
  "demo_builtins =
     \<lparr>list_records = \<lparr>builtin_schema = accept_all, builtin_body = answer ''built-in list''\<rparr>,
      search_records = \<lparr>builtin_schema = accept_all, builtin_body = answer ''built-in search''\<rparr>,
      get_record = \<lparr>builtin_schema = accept_all, builtin_body = answer ''built-in get''\<rparr>,
      create_record = \<lparr>builtin_schema = accept_all, builtin_body = answer ''built-in create''\<rparr>,
      update_record = \<lparr>builtin_schema = accept_all, builtin_body = answer ''built-in update''\<rparr>,
      delete_record = \<lparr>builtin_schema = accept_all, builtin_body = answer ''built-in delete''\<rparr>\<rparr>"

definition demo_registration :: "string \<Rightarrow> string \<Rightarrow> unit Registration" where
  "demo_registration nm label =
     \<lparr>reg_toolName = nm, reg_description = label, reg_inputSchema = accept_all,
      reg_handler = answer label\<rparr>"

section \<open>The query pipeline\<close>

text \<open>
  The query is an untyped map in the source, which tests each entry before use. The record
  below holds what passes those tests: \<open>query_searchTerm\<close> is set when
  \<^verbatim>\<open>query.searchTerm\<close> is a string, \<open>query_fields\<close> when \<^verbatim>\<open>query.fields\<close> is an array,
  \<open>query_filter\<close> when \<^verbatim>\<open>query.filter\<close> is a non-null object, \<open>query_sort\<close> when
  \<^verbatim>\<open>query.sort\<close> is an array, \<open>query_maxRecords\<close> when \<^verbatim>\<open>query.maxRecords\<close> is a number.
\<close>

datatype direction = asc | desc

record sortItem =
  field :: string
  direction :: "direction option"

record query =
  query_searchTerm :: "string option"
  query_fields :: "string list option"
  query_filter :: "jsobject option"
  query_sort :: "sortItem list option"
  query_maxRecords :: "int option"







text \<open>
  The comparator handed to \<^verbatim>\<open>records.sort\<close>: the loop over the sort items. The collation
  \<^verbatim>\<open>String.prototype.localeCompare\<close> depends on the host's locale and is a parameter.
\<close>

fun compareRecords ::
  "(string \<Rightarrow> string \<Rightarrow> int) \<Rightarrow> sortItem list \<Rightarrow> jsobject \<Rightarrow> jsobject \<Rightarrow> int" where
  "compareRecords localeCompare [] a b = 0"
| "compareRecords localeCompare (sortItem # rest) a b =
     (let dir = (case direction sortItem of None \<Rightarrow> asc | Some d \<Rightarrow> d);
          aValue = get_prop a (field sortItem);
          bValue = get_prop b (field sortItem)
      in if aValue = bValue then compareRecords localeCompare rest a b
         else if aValue = JUndefined then (if dir = asc then - 1 else 1)
         else if bValue = JUndefined then (if dir = asc then 1 else - 1)
         else (let comparison = localeCompare (String_of aValue) (String_of bValue)
               in if dir = asc then comparison else - comparison))"

text \<open>
  \<^verbatim>\<open>Array.prototype.sort\<close>. The language fixes its result for a consistent comparator, the
  stable ordering of the array, and leaves the order to the engine otherwise. The engine
  of the Node runtime sorts an array of fewer than 64 elements as follows. It takes the
  longest run at the start of the array that is ascending, or strictly descending, and
  reverses a descending one (\<^verbatim>\<open>CountAndMakeRun\<close>). Then it inserts each remaining element
  into the sorted front, at the place a binary search finds
  (\<^verbatim>\<open>BinaryInsertionSort\<close>). A longer array is cut into such runs, which are merged; the
  merging is not modelled. With a consistent comparator it gives the same result, the one
  stable ordering.
\<close>

fun extend_run :: "('a \<Rightarrow> 'a \<Rightarrow> int) \<Rightarrow> bool \<Rightarrow> 'a \<Rightarrow> 'a list \<Rightarrow> nat" where
  "extend_run cmp isDescending previousElement [] = 0"
| "extend_run cmp isDescending previousElement (currentElement # rest) =
     (let order = cmp currentElement previousElement
      in if isDescending
         then (if order \<ge> 0 then 0 else Suc (extend_run cmp isDescending currentElement rest))
         else (if order < 0 then 0 else Suc (extend_run cmp isDescending currentElement rest)))"

text \<open>The run at the start of the array, made ascending, and the elements after it.\<close>

definition CountAndMakeRun :: "('a \<Rightarrow> 'a \<Rightarrow> int) \<Rightarrow> 'a list \<Rightarrow> 'a list \<times> 'a list" where
  "CountAndMakeRun cmp arr =
     (case arr of
        elementHigh # elementLow # rest \<Rightarrow>
          (let order = cmp elementLow elementHigh;
               isDescending = order < 0;
               runLength = 2 + extend_run cmp isDescending elementLow rest
           in (if isDescending then rev (take runLength arr) else take runLength arr,
               drop runLength arr))
      | _ \<Rightarrow> (arr, []))"

text \<open>The binary search for the place of the pivot among \<open>arr ! left, \<dots>, arr ! (right - 1)\<close>.\<close>

function binary_search :: "('a \<Rightarrow> 'a \<Rightarrow> int) \<Rightarrow> 'a \<Rightarrow> 'a list \<Rightarrow> nat \<Rightarrow> nat \<Rightarrow> nat" where
  "binary_search cmp pivot arr left right =
     (if left < right
      then (let mid = left + (right - left) div 2;
                order = cmp pivot (arr ! mid)
            in if order < 0 then binary_search cmp pivot arr left mid
               else binary_search cmp pivot arr (mid + 1) right)
      else left)"
  by pat_completeness auto
termination
  by (relation "measure (\<lambda>(cmp, pivot, arr, left, right). right - left)") auto

declare binary_search.simps [simp del]

text \<open>One step of the insertion: the pivot, the element after the sorted front, moves in.\<close>

definition insert_pivot :: "('a \<Rightarrow> 'a \<Rightarrow> int) \<Rightarrow> 'a list \<Rightarrow> 'a \<Rightarrow> 'a list" where
  "insert_pivot cmp front pivot =
     (let left = binary_search cmp pivot front 0 (length front)
      in take left front @ pivot # drop left front)"

definition BinaryInsertionSort :: "('a \<Rightarrow> 'a \<Rightarrow> int) \<Rightarrow> 'a list \<Rightarrow> 'a list \<Rightarrow> 'a list" where
  "BinaryInsertionSort cmp run rest = foldl (insert_pivot cmp) run rest"

definition Array_sort :: "('a \<Rightarrow> 'a \<Rightarrow> int) \<Rightarrow> 'a list \<Rightarrow> 'a list" where
  "Array_sort cmp arr =
     (case CountAndMakeRun cmp arr of (run, rest) \<Rightarrow> BinaryInsertionSort cmp run rest)"

definition sort_stage ::
  "(string \<Rightarrow> string \<Rightarrow> int) \<Rightarrow> query \<Rightarrow> jsobject list \<Rightarrow> jsobject list" where
  "sort_stage localeCompare q records =
     (case query_sort q of
        None \<Rightarrow> records
      | Some items \<Rightarrow>
          if items = [] then records
          else Array_sort (compareRecords localeCompare items) records)"




text \<open>
  An ascending run, as the engine's run detection tests it: no element compares below the
  one before it.
\<close>

definition ascending_run :: "('a \<Rightarrow> 'a \<Rightarrow> int) \<Rightarrow> 'a list \<Rightarrow> bool" where
  "ascending_run cmp xs = successively (\<lambda>previous current. cmp current previous \<ge> 0) xs"

text \<open>
  What the collation is required to be: the sign of a comparison flips when its arguments
  are swapped.
\<close>

definition antisymmetric_compare :: "(string \<Rightarrow> string \<Rightarrow> int) \<Rightarrow> bool" where
  "antisymmetric_compare localeCompare =
     (\<forall>s t. sgn (localeCompare t s) = - sgn (localeCompare s t))"

text \<open>
  A comparator is consistent on an array when it orders the elements as a total preorder:
  the sign of a comparison flips with its arguments, and ``not greater'' is transitive.
\<close>

definition consistent_on :: "('a \<Rightarrow> 'a \<Rightarrow> int) \<Rightarrow> 'a list \<Rightarrow> bool" where
  "consistent_on cmp xs =
     list_all (\<lambda>a. list_all (\<lambda>b.
         sgn (cmp b a) = - sgn (cmp a b)
         \<and> list_all (\<lambda>c. if cmp a b \<le> 0 \<and> cmp b c \<le> 0 then cmp a c \<le> 0 else True) xs)
       xs) xs"

text \<open>Two records are equal under all sort items when they agree at every sort field.\<close>

definition equal_under :: "sortItem list \<Rightarrow> jsobject \<Rightarrow> jsobject \<Rightarrow> bool" where
  "equal_under items a b =
     list_all (\<lambda>item. get_prop a (field item) = get_prop b (field item)) items"

text \<open>
  The specification's rule for one sort item and two records whose values at its field
  differ, for comparison with the loop: a missing value sorts first when ascending and
  last when descending, two present values compare by the collation of their string
  conversions, and descending negates the result.
\<close>

definition spec_decide :: "(string \<Rightarrow> string \<Rightarrow> int) \<Rightarrow> sortItem \<Rightarrow> jsobject \<Rightarrow> jsobject \<Rightarrow> int" where
  "spec_decide localeCompare item a b =
     (if direction item = Some desc
      then (if get_prop a (field item) = JUndefined then 1
            else if get_prop b (field item) = JUndefined then - 1
            else - localeCompare (String_of (get_prop a (field item)))
                     (String_of (get_prop b (field item))))
      else (if get_prop a (field item) = JUndefined then - 1
            else if get_prop b (field item) = JUndefined then 1
            else localeCompare (String_of (get_prop a (field item)))
                   (String_of (get_prop b (field item)))))"

text \<open>
  An ordinal collation, used to run the pipeline on concrete inputs: it compares character
  codes, as every locale does on strings of digits or of lower-case letters.
\<close>

definition ordinal_compare :: "string \<Rightarrow> string \<Rightarrow> int" where
  "ordinal_compare s t = (if s < t then - 1 else if t < s then 1 else 0)"


text \<open>
  A sufficient condition for consistency, in terms of the collation and the data: the
  collation is transitive, and it tells apart the string conversions of any two values
  that differ at a sort field.
\<close>

definition transitive_compare :: "(string \<Rightarrow> string \<Rightarrow> int) \<Rightarrow> bool" where
  "transitive_compare localeCompare =
     (\<forall>s t u. localeCompare s t \<le> 0 \<and> localeCompare t u \<le> 0 \<longrightarrow> localeCompare s u \<le> 0)"

definition told_apart ::
  "(string \<Rightarrow> string \<Rightarrow> int) \<Rightarrow> sortItem list \<Rightarrow> jsobject list \<Rightarrow> bool" where
  "told_apart localeCompare items xs =
     list_all (\<lambda>item. list_all (\<lambda>a. list_all (\<lambda>b.
         if get_prop a (field item) \<noteq> get_prop b (field item)
         then localeCompare (String_of (get_prop a (field item)))
                (String_of (get_prop b (field item))) \<noteq> 0
         else True) xs) xs) items"

text \<open>Records and queries used to run the pipeline on concrete inputs.\<close>

definition demo_users :: "jsobject list" where
  "demo_users =
     [[(''id'', JStr ''u1''), (''role'', JStr ''admin'')],
      [(''id'', JStr ''u2''), (''role'', JStr ''user'')],
      [(''id'', JStr ''u3''), (''role'', JStr ''user'')],
      [(''id'', JStr ''u4'')]]"


definition demo_sort_items :: "sortItem list" where
  "demo_sort_items =
     [\<lparr>field = ''role'', direction = None\<rparr>, \<lparr>field = ''id'', direction = Some desc\<rparr>]"

definition demo_sort_query :: query where
  "demo_sort_query =
     \<lparr>query_searchTerm = None, query_fields = None, query_filter = None,
      query_sort = Some demo_sort_items, query_maxRecords = None\<rparr>"

text \<open>
  Three records whose \<open>f\<close> values are the number 1 and the string \<open>1\<close>: different
  values with the same string conversion.
\<close>

definition mixed_a :: jsobject where
  "mixed_a = [(''f'', JNum 1), (''g'', JStr ''2'')]"

definition mixed_b :: jsobject where
  "mixed_b = [(''f'', JStr ''1''), (''g'', JStr ''1'')]"

definition mixed_c :: jsobject where
  "mixed_c = [(''f'', JNum 1), (''g'', JStr ''0'')]"

definition mixed_items :: "sortItem list" where
  "mixed_items = [\<lparr>field = ''f'', direction = None\<rparr>, \<lparr>field = ''g'', direction = None\<rparr>]"

definition mixed_query :: query where
  "mixed_query =
     \<lparr>query_searchTerm = None, query_fields = None, query_filter = None,
      query_sort = Some mixed_items, query_maxRecords = None\<rparr>"

text \<open>
  Six records on which the comparator of \<open>mixed_items\<close> is not consistent. The fourth and
  the sixth agree at both sort fields.
\<close>

definition unstable_records :: "jsobject list" where
  "unstable_records =
     [[(''id'', JStr ''r0''), (''f'', JStr ''1''), (''g'', JStr ''x'')],
      [(''id'', JStr ''r1''), (''f'', JStr ''1''), (''g'', JStr ''y'')],
      [(''id'', JStr ''r2''), (''f'', JNum 1)],
      [(''id'', JStr ''r3''), (''f'', JStr ''1'')],
      [(''id'', JStr ''r4'')],
      [(''id'', JStr ''r5''), (''f'', JStr ''1'')]]"

section \<open>Properties of the record store\<close>

lemma Map_get_set_same: "Map_get (Map_set m k v) k = Some v"
  by (simp add: Map_get_def Map_set_def update_conv')

lemma Map_get_set_other: "k' \<noteq> k \<Longrightarrow> Map_get (Map_set m k v) k' = Map_get m k'"
  by (simp add: Map_get_def Map_set_def update_conv')



lemma records_of_set: "records_of (svc\<lparr>data := Map_set (data svc) u m\<rparr>) u = m"
  by (simp add: records_of_def Map_get_set_same)


lemma registered_validate: "registered svc u \<Longrightarrow> validateResource svc u = None"
  by (simp add: registered_def validateResource_def)

lemma registered_data:
  "registered svc u \<Longrightarrow> Map_get (data svc) u = Some (records_of svc u)"
  by (auto simp: registered_def records_of_def Map_has_def Map_get_def)

text \<open>
  C6: updating a record id that the resource's collection does not hold fails with the
  not-found error, and the service (hence the collection) is left exactly as it was.
\<close>

theorem updateRecord_missing_id:
  assumes "registered svc u"
    and "Map_get (records_of svc u) (JStr rid) = None"
  shows "updateRecord timestamp svc u rid dat = (Inl (Error (''Record not found: '' @ rid)), svc)"
  using assms
  by (simp add: updateRecord_def registered_validate registered_data)

theorem updateRecord_missing_id_witness:
  "registered demo_service ''mcp://users''
   \<and> Map_get (records_of demo_service ''mcp://users'') (JStr ''u9'') = None
   \<and> updateRecord ''t1'' demo_service ''mcp://users'' ''u9'' [(''role'', JStr ''x'')]
       = (Inl (Error ''Record not found: u9''), demo_service)"
proof -
  have r: "registered demo_service ''mcp://users''"
    by (simp add: registered_def demo_service_def Map_has_def)
  have m: "Map_get (records_of demo_service ''mcp://users'') (JStr ''u9'') = None"
    by (simp add: records_of_def demo_service_def Map_get_def)
  show ?thesis
    using r m updateRecord_missing_id [OF r m, of "''t1''" "[(''role'', JStr ''x'')]"]
    by simp
qed




text \<open>
  C9: whenever \<open>deleteRecord\<close> returns normally its result is \<open>true\<close>: an absent id has
  raised the not-found error before \<^verbatim>\<open>Map.delete\<close> produces its boolean.
\<close>

theorem deleteRecord_never_false:
  assumes "fst (deleteRecord svc u rid) = Inr b"
  shows "b = True"
  using assms
  by (auto simp: deleteRecord_def Map_delete_def split: option.splits if_splits)

theorem deleteRecord_never_false_witness:
  "fst (deleteRecord demo_service ''mcp://users'' ''u2'') = Inr True"
proof -
  have "fst (deleteRecord demo_service ''mcp://users'' ''u2'') = Inr True"
    by (simp add: deleteRecord_def validateResource_def demo_service_def Map_has_def
        Map_get_def Map_delete_def)
  then show ?thesis
    using deleteRecord_never_false [of demo_service "''mcp://users''" "''u2''" True] by simp
qed

lemma get_prop_obj_set:
  "get_prop (obj_set obj k v) k' = (if k' = k then v else get_prop obj k')"
  by (simp add: get_prop_def obj_set_def update_conv')

lemma map_of_spread: "map_of (spread obj src) = map_of obj ++ map_of (rev src)"
proof (induction src arbitrary: obj)
  case Nil
  then show ?case by (simp add: spread_def)
next
  case (Cons kv src)
  have "spread obj (kv # src) = spread (obj_set obj (fst kv) (snd kv)) src"
    by (simp add: spread_def)
  then show ?case
    using Cons.IH [of "obj_set obj (fst kv) (snd kv)"]
    by (cases kv) (simp add: obj_set_def update_conv' map_add_upd_left fun_eq_iff map_add_def split: option.splits)
qed

lemma map_of_rev_distinct:
  "distinct (map fst xs) \<Longrightarrow> map_of (rev xs) = map_of xs"
proof (induction xs)
  case Nil
  then show ?case by simp
next
  case (Cons x xs)
  then have "fst x \<notin> dom (map_of xs)"
    by (simp add: dom_map_of_conv_image_fst)
  then show ?case
    using Cons by (cases x) (auto simp: fun_eq_iff map_add_def split: option.splits)
qed

lemma get_prop_spread:
  assumes "distinct (map fst src)"
  shows "get_prop (spread obj src) k
    = (if k \<in> fst ` set src then get_prop src k else get_prop obj k)"
proof -
  have rv: "map_of (rev src) = map_of src"
    using assms by (rule map_of_rev_distinct)
  show ?thesis
  proof (cases "map_of src k")
    case None
    then have "k \<notin> fst ` set src"
      by (simp add: map_of_eq_None_iff)
    with None show ?thesis
      by (simp add: get_prop_def map_of_spread rv map_add_def)
  next
    case (Some v)
    then have "k \<in> fst ` set src"
      by (metis map_of_eq_None_iff option.distinct(1))
    with Some show ?thesis
      by (simp add: get_prop_def map_of_spread rv map_add_def)
  qed
qed


lemma keys_Map_set_present:
  "Map_has m k \<Longrightarrow> map fst (Map_set m k v) = map fst m"
  by (auto simp: Map_has_def Map_set_def update_keys map_of_eq_None_iff)

lemma registered_demo: "registered demo_service ''mcp://users''"
  by (simp add: registered_def demo_service_def Map_has_def)

text \<open>
  C2, as stated, fails: the pattern has no repetition, so two adjacent non-alphanumeric
  characters yield two separators, where the specification's derivation yields one.
\<close>

theorem registerResource_runs_counterexample:
  "uri (fst (registerResource ascii_toLowerCase demo_service ''User  Profiles'' None))
     = ''mcp://user--profiles''
   \<and> resourcePrefix demo_service @ spec_collapse_runs (ascii_toLowerCase ''User  Profiles'')
       = ''mcp://user-profiles''
   \<and> uri (fst (registerResource ascii_toLowerCase demo_service ''User  Profiles'' None))
       \<noteq> resourcePrefix demo_service
           @ spec_collapse_runs (ascii_toLowerCase ''User  Profiles'')"
  by (simp add: registerResource_def demo_service_def ascii_toLowerCase_def
      ascii_toLowerCase_char_def is_a_z_0_9_def replace_non_a_z_0_9_def spec_collapse_runs_def
      Let_def)

text \<open>
  C2, amended: whatever the lowercasing of the host yields for the name, the URI is the
  configured prefix followed by that lowercased name in which every character outside
  \<^verbatim>\<open>[a-z0-9]\<close> is replaced, one for one, by the separator: position \<open>i\<close> of the derived
  identifier holds the \<open>i\<close>-th character of the lowercased name or the separator, so a run
  of \<open>k\<close> such characters yields \<open>k\<close> separators. The resource is stored under that URI
  with an empty record collection.
\<close>

theorem registerResource_uri:
  "take (length (resourcePrefix svc)) (uri (fst (registerResource toLowerCase svc nm descr)))
     = resourcePrefix svc
   \<and> length (uri (fst (registerResource toLowerCase svc nm descr)))
     = length (resourcePrefix svc) + length (toLowerCase nm)
   \<and> (\<forall>i<length (toLowerCase nm).
        uri (fst (registerResource toLowerCase svc nm descr)) ! (length (resourcePrefix svc) + i)
          = (if is_a_z_0_9 (toLowerCase nm ! i) then toLowerCase nm ! i else CHR ''-''))
   \<and> name (fst (registerResource toLowerCase svc nm descr)) = nm
   \<and> Map_get (resources (snd (registerResource toLowerCase svc nm descr)))
        (uri (fst (registerResource toLowerCase svc nm descr)))
     = Some (fst (registerResource toLowerCase svc nm descr))
   \<and> records_of (snd (registerResource toLowerCase svc nm descr))
        (uri (fst (registerResource toLowerCase svc nm descr))) = []"
  by (simp add: registerResource_def Let_def replace_non_a_z_0_9_def nth_append
      Map_get_set_same records_of_def)

theorem registerResource_uri_witness:
  "uri (fst (registerResource ascii_toLowerCase demo_service ''A  b'' None)) = ''mcp://a--b''
   \<and> uri (fst (registerResource ascii_toLowerCase demo_service ''A  b'' None))
        ! (length (resourcePrefix demo_service) + 1) = CHR ''-''
   \<and> uri (fst (registerResource ascii_toLowerCase demo_service ''A  b'' None))
        ! (length (resourcePrefix demo_service) + 2) = CHR ''-''"
proof -
  have low: "ascii_toLowerCase ''A  b'' = ''a  b''"
    by (simp add: ascii_toLowerCase_def ascii_toLowerCase_char_def)
  have "(1::nat) < length (ascii_toLowerCase ''A  b'')"
    and "(2::nat) < length (ascii_toLowerCase ''A  b'')"
    by (simp_all add: low)
  moreover have "uri (fst (registerResource ascii_toLowerCase demo_service ''A  b'' None))
      = ''mcp://a--b''"
    by (simp add: registerResource_def demo_service_def low is_a_z_0_9_def
        replace_non_a_z_0_9_def Let_def)
  ultimately show ?thesis
    using registerResource_uri [of demo_service ascii_toLowerCase "''A  b''" None]
    by (simp add: demo_service_def low)
qed

text \<open>
  C3: the claim, that an update leaves both timestamps to the store, is what the code
  does for \<open>updatedAt\<close> and what \<open>createRecord\<close> does for both, writing them after the
  spread of the data map. \<open>updateRecord\<close> writes only \<open>id\<close> and \<open>updatedAt\<close> after the
  spread, so it returns and stores the \<open>createdAt\<close> of the caller, where \<open>createRecord\<close>
  on the same data map stores its own.
\<close>

theorem updateRecord_keeps_caller_createdAt:
  "fst (updateRecord ''t1'' demo_service ''mcp://users'' ''u1'' [(''createdAt'', JStr ''bogus'')])
     = Inr [(''id'', JStr ''u1''), (''role'', JStr ''admin''),
            (''createdAt'', JStr ''bogus''), (''updatedAt'', JStr ''t1'')]
   \<and> Map_get (records_of (snd (updateRecord ''t1'' demo_service ''mcp://users'' ''u1''
          [(''createdAt'', JStr ''bogus'')])) ''mcp://users'') (JStr ''u1'')
     = Some [(''id'', JStr ''u1''), (''role'', JStr ''admin''),
             (''createdAt'', JStr ''bogus''), (''updatedAt'', JStr ''t1'')]
   \<and> fst (createRecord ''uuid-1'' ''t1'' demo_service ''mcp://users''
          [(''id'', JStr ''u3''), (''createdAt'', JStr ''bogus'')])
     = Inr [(''id'', JStr ''u3''), (''createdAt'', JStr ''t1''), (''updatedAt'', JStr ''t1'')]"
  by (simp add: updateRecord_def createRecord_def validateResource_def demo_service_def
      Map_has_def Map_get_def Map_set_def records_of_def spread_def obj_set_def get_prop_def
      Let_def)

text \<open>
  What an update does to each field: \<open>id\<close> and \<open>updatedAt\<close> come from the call, every
  other field from the data map when the data map has it and from the existing record
  otherwise.
\<close>

lemma updateRecord_fields:
  assumes "registered svc u"
    and "Map_get (records_of svc u) (JStr rid) = Some existing"
    and "distinct (map fst existing)"
    and "distinct (map fst dat)"
  shows "\<exists>updated.
      fst (updateRecord timestamp svc u rid dat) = Inr updated
    \<and> Map_get (records_of (snd (updateRecord timestamp svc u rid dat)) u) (JStr rid)
        = Some updated
    \<and> map fst (records_of (snd (updateRecord timestamp svc u rid dat)) u)
        = map fst (records_of svc u)
    \<and> get_prop updated ''id'' = JStr rid
    \<and> get_prop updated ''updatedAt'' = JStr timestamp
    \<and> (\<forall>k. k \<noteq> ''id'' \<and> k \<noteq> ''updatedAt'' \<longrightarrow>
          get_prop updated k
            = (if k \<in> fst ` set dat then get_prop dat k else get_prop existing k))"
proof -
  let ?upd = "obj_set (obj_set (spread (spread [] existing) dat) ''id'' (JStr rid))
                ''updatedAt'' (JStr timestamp)"
  let ?svc' = "svc\<lparr>data := Map_set (data svc) u (Map_set (records_of svc u) (JStr rid) ?upd)\<rparr>"
  have run: "updateRecord timestamp svc u rid dat = (Inr ?upd, ?svc')"
    using assms(1,2)
    by (simp add: updateRecord_def registered_validate registered_data Let_def)
  have has: "Map_has (records_of svc u) (JStr rid)"
    using assms(2) by (simp add: Map_has_def Map_get_def)
  have copy: "get_prop (spread [] existing) k = get_prop existing k" for k
    using assms(3) by (simp add: get_prop_def map_of_spread map_of_rev_distinct)
  have other: "get_prop ?upd k
      = (if k \<in> fst ` set dat then get_prop dat k else get_prop existing k)"
    if "k \<noteq> ''id'' \<and> k \<noteq> ''updatedAt''" for k
    using that by (simp add: get_prop_obj_set get_prop_spread [OF assms(4)] copy)
  show ?thesis
    using other
    by (simp add: run records_of_set Map_get_set_same keys_Map_set_present [OF has]
        get_prop_obj_set)
qed

lemma Map_get_set: "Map_get (Map_set m k v) k' = (if k' = k then Some v else Map_get m k')"
  by (simp add: Map_get_set_same Map_get_set_other)

text \<open>
  C10, as stated, fails for a falsy id: with \<open>id\<close> the empty string the record is filed
  under a generated key while its \<open>id\<close> field stays empty, so a second record with the
  same \<open>id\<close> field is added beside the first instead of replacing it.
\<close>

theorem createRecord_falsy_id_counterexample:
  "map (\<lambda>kv. get_prop (snd kv) ''id'')
     (records_of
        (snd (createRecord ''uuid-2'' ''t2''
           (snd (createRecord ''uuid-1'' ''t1'' demo_service ''mcp://users'' [(''id'', JStr '''')]))
           ''mcp://users'' [(''id'', JStr '''')]))
        ''mcp://users'')
   = [JStr ''u1'', JStr ''u2'', JStr '''', JStr '''']
   \<and> fst (createRecord ''uuid-1'' ''t1'' demo_service ''mcp://users'' [(''id'', JStr '''')])
       = Inr [(''id'', JStr ''''), (''createdAt'', JStr ''t1''), (''updatedAt'', JStr ''t1'')]"
  by (simp add: createRecord_def validateResource_def demo_service_def Map_has_def Map_get_def
      Map_set_def records_of_def spread_def obj_set_def get_prop_def Let_def)

text \<open>
  C10, amended: when the data map's \<open>id\<close> is truthy and the collection already holds a
  record under that id, \<open>createRecord\<close> raises no error and replaces that record in place
  by the new one: the collection keeps its ids, in their order, the id now maps to the new
  record (carrying that id and the store's two timestamps), and every other id maps to
  what it mapped to before.
\<close>

theorem createRecord_existing_id:
  assumes "registered svc u"
    and "truthy (get_prop dat ''id'')"
    and "Map_get (records_of svc u) (get_prop dat ''id'') = Some old"
    and "distinct (map fst dat)"
  shows "\<exists>new.
      fst (createRecord uuid timestamp svc u dat) = Inr new
    \<and> get_prop new ''id'' = get_prop dat ''id''
    \<and> get_prop new ''createdAt'' = JStr timestamp
    \<and> get_prop new ''updatedAt'' = JStr timestamp
    \<and> map fst (records_of (snd (createRecord uuid timestamp svc u dat)) u)
        = map fst (records_of svc u)
    \<and> (\<forall>k. Map_get (records_of (snd (createRecord uuid timestamp svc u dat)) u) k
          = (if k = get_prop dat ''id'' then Some new else Map_get (records_of svc u) k))"
proof -
  let ?id = "get_prop dat ''id''"
  let ?new = "obj_set (obj_set (spread [(''id'', ?id)] dat) ''createdAt'' (JStr timestamp))
                ''updatedAt'' (JStr timestamp)"
  let ?svc' = "svc\<lparr>data := Map_set (data svc) u (Map_set (records_of svc u) ?id ?new)\<rparr>"
  have run: "createRecord uuid timestamp svc u dat = (Inr ?new, ?svc')"
    using assms(1,2)
    by (simp add: createRecord_def registered_validate registered_data Let_def)
  have has: "Map_has (records_of svc u) ?id"
    using assms(3) by (simp add: Map_has_def Map_get_def)
  have idf: "get_prop (spread [(''id'', ?id)] dat) ''id'' = ?id"
    by (simp add: get_prop_spread [OF assms(4)]) (simp add: get_prop_def)
  show ?thesis
    by (simp add: run records_of_set Map_get_set keys_Map_set_present [OF has]
        get_prop_obj_set idf)
qed

theorem createRecord_existing_id_witness:
  "fst (createRecord ''uuid-1'' ''t1'' demo_service ''mcp://users''
          [(''id'', JStr ''u1''), (''role'', JStr ''guest'')])
     = Inr [(''id'', JStr ''u1''), (''role'', JStr ''guest''),
            (''createdAt'', JStr ''t1''), (''updatedAt'', JStr ''t1'')]
   \<and> map fst (records_of (snd (createRecord ''uuid-1'' ''t1'' demo_service ''mcp://users''
          [(''id'', JStr ''u1''), (''role'', JStr ''guest'')])) ''mcp://users'')
     = [JStr ''u1'', JStr ''u2'']
   \<and> Map_get (records_of (snd (createRecord ''uuid-1'' ''t1'' demo_service ''mcp://users''
          [(''id'', JStr ''u1''), (''role'', JStr ''guest'')])) ''mcp://users'') (JStr ''u1'')
     = Some [(''id'', JStr ''u1''), (''role'', JStr ''guest''),
            (''createdAt'', JStr ''t1''), (''updatedAt'', JStr ''t1'')]"
proof -
  let ?dat = "[(''id'', JStr ''u1''), (''role'', JStr ''guest'')]"
  have idv: "get_prop ?dat ''id'' = JStr ''u1''"
    by (simp add: get_prop_def)
  have t: "truthy (get_prop ?dat ''id'')"
    by (simp add: idv)
  have m: "Map_get (records_of demo_service ''mcp://users'') (get_prop ?dat ''id'')
      = Some [(''id'', JStr ''u1''), (''role'', JStr ''admin''),
              (''createdAt'', JStr ''t0''), (''updatedAt'', JStr ''t0'')]"
    by (simp add: idv records_of_def demo_service_def Map_get_def)
  have d: "distinct (map fst ?dat)"
    by simp
  have run: "fst (createRecord ''uuid-1'' ''t1'' demo_service ''mcp://users'' ?dat)
     = Inr [(''id'', JStr ''u1''), (''role'', JStr ''guest''),
            (''createdAt'', JStr ''t1''), (''updatedAt'', JStr ''t1'')]"
    by (simp add: createRecord_def validateResource_def demo_service_def Map_has_def Map_get_def
      Map_set_def records_of_def spread_def obj_set_def get_prop_def Let_def)
  have keys: "map fst (records_of demo_service ''mcp://users'') = [JStr ''u1'', JStr ''u2'']"
    by (simp add: records_of_def demo_service_def Map_get_def)
  show ?thesis
    using createRecord_existing_id [OF registered_demo t m d, of "''uuid-1''" "''t1''"] run keys idv
    by auto
qed

section \<open>Properties of the dispatcher\<close>

lemma register_all_snoc:
  "register_all srv (regs @ [r])
     = registerTool (register_all srv regs) (reg_toolName r) (reg_description r)
         (reg_inputSchema r) (reg_handler r)"
  by (simp add: register_all_def)

lemma handleCallTool_registerTool:
  "handleCallTool (registerTool srv toolName descr inputSchema handler) request st
     = (if params_name request = toolName
        then safeExecute toolName (validate_then inputSchema handler (params_arguments request)) st
        else handleCallTool srv request st)"
  by (simp add: registerTool_def Let_def)

lemma handleListTools_registerTool:
  "handleListTools (registerTool srv toolName descr inputSchema handler)
     = handleListTools srv @ [\<lparr>tool_name = toolName, tool_description = descr\<rparr>]"
  by (simp add: registerTool_def Let_def)

lemma dispatch_register_all:
  "handleCallTool (register_all srv regs) request st
     = (case find (\<lambda>r. reg_toolName r = params_name request) (rev regs) of
          Some r \<Rightarrow>
            safeExecute (reg_toolName r)
              (validate_then (reg_inputSchema r) (reg_handler r) (params_arguments request)) st
        | None \<Rightarrow> handleCallTool srv request st)"
proof (induction regs rule: rev_induct)
  case Nil
  show ?case by (simp add: register_all_def)
next
  case (snoc r regs)
  show ?case
  proof (cases "reg_toolName r = params_name request")
    case True
    then show ?thesis
      by (simp add: register_all_snoc handleCallTool_registerTool)
  next
    case False
    then have "params_name request \<noteq> reg_toolName r"
      by (rule not_sym)
    with False show ?thesis
      by (simp add: register_all_snoc handleCallTool_registerTool snoc.IH)
  qed
qed

lemma listing_register_all:
  "map tool_name (handleListTools (register_all srv regs))
     = map tool_name (handleListTools srv) @ map reg_toolName regs"
  by (induction regs rule: rev_induct)
     (simp_all add: register_all_def handleListTools_registerTool)

lemma unknown_builtin:
  assumes "params_name request \<notin> set builtin_names"
  shows "MCPServer_handleCallTool b request st
    = (formatErrorResponse (params_name request)
         (Thrown (JStr (''Unknown tool: '' @ params_name request))), st)"
  using assms by (simp add: MCPServer_handleCallTool_def builtin_names_def Let_def)






text \<open>
  C8: a name that is neither one of the six built-ins nor the name of a registered tool is
  answered, after any sequence of registrations, by an error response and no throw: the
  error flag is set, the state is untouched, and the text is the JSON string of a message
  that names the tool twice.
\<close>

theorem unknown_tool_error_envelope:
  assumes "params_name request \<notin> set builtin_names"
    and "params_name request \<notin> reg_toolName ` set regs"
  shows "handleCallTool (register_all (MCPServer_new b) regs) request st
      = (formatToolResponse
           (JsonStr (''Error in tool '' @ params_name request @ '': Unknown tool: ''
              @ params_name request)) True, st)
    \<and> isError (fst (handleCallTool (register_all (MCPServer_new b) regs) request st))
    \<and> map content_text
        (content (fst (handleCallTool (register_all (MCPServer_new b) regs) request st)))
      = [QuoteJSONString (''Error in tool '' @ params_name request @ '': Unknown tool: ''
           @ params_name request)]"
proof -
  have "find (\<lambda>r. reg_toolName r = params_name request) (rev regs) = None"
    using assms(2) by (force simp: find_None_iff)
  then have "handleCallTool (register_all (MCPServer_new b) regs) request st
      = MCPServer_handleCallTool b request st"
    by (simp add: dispatch_register_all MCPServer_new_def)
  then show ?thesis
    by (simp add: unknown_builtin [OF assms(1)] formatErrorResponse_def formatToolResponse_def)
qed

theorem unknown_tool_error_envelope_witness:
  "handleCallTool
     (register_all (MCPServer_new demo_builtins) [demo_registration ''my_tool'' ''first''])
     \<lparr>params_name = ''no_such_tool'', params_arguments = JsonNull\<rparr> ()
     = (\<lparr>content = [\<lparr>content_type = ''text'', content_mimeType = ''application/json'',
           content_text = CHR 0x22 # ''Error in tool no_such_tool: Unknown tool: no_such_tool''
             @ [CHR 0x22]\<rparr>],
         isError = True\<rparr>, ())"
proof -
  have a: "params_name \<lparr>params_name = ''no_such_tool'', params_arguments = JsonNull\<rparr>
      \<notin> set builtin_names"
    by (simp add: builtin_names_def)
  have b: "params_name \<lparr>params_name = ''no_such_tool'', params_arguments = JsonNull\<rparr>
      \<notin> reg_toolName ` set [demo_registration ''my_tool'' ''first'']"
    by (simp add: demo_registration_def)
  show ?thesis
    using unknown_tool_error_envelope [OF a b, of demo_builtins "()"]
    by (simp add: formatToolResponse_def QuoteJSONString_def QuoteJSONChar_def)
qed

section \<open>Properties of the query pipeline\<close>

subsection \<open>The binary search\<close>

lemma binary_search_result:
  assumes "left \<le> right"
  shows "left \<le> binary_search cmp pivot arr left right
    \<and> binary_search cmp pivot arr left right \<le> right
    \<and> (binary_search cmp pivot arr left right = left
        \<or> cmp pivot (arr ! (binary_search cmp pivot arr left right - 1)) \<ge> 0)
    \<and> (binary_search cmp pivot arr left right = right
        \<or> cmp pivot (arr ! binary_search cmp pivot arr left right) < 0)"
  using assms
proof (induction cmp pivot arr left right rule: binary_search.induct)
  case (1 cmp pivot arr left right)
  show ?case
  proof (cases "left < right")
    case False
    then have "binary_search cmp pivot arr left right = left"
      by (subst binary_search.simps) simp
    with "1.prems" False show ?thesis
      by simp
  next
    case True
    define mid where "mid = left + (right - left) div 2"
    have mid: "left \<le> mid" "mid < right"
      using True by (simp_all add: mid_def)
    show ?thesis
    proof (cases "cmp pivot (arr ! mid) < 0")
      case less: True
      have eq: "binary_search cmp pivot arr left right = binary_search cmp pivot arr left mid"
        using True less
        by (subst binary_search.simps) (simp add: mid_def Let_def)
      have "left \<le> binary_search cmp pivot arr left mid
        \<and> binary_search cmp pivot arr left mid \<le> mid
        \<and> (binary_search cmp pivot arr left mid = left
            \<or> cmp pivot (arr ! (binary_search cmp pivot arr left mid - 1)) \<ge> 0)
        \<and> (binary_search cmp pivot arr left mid = mid
            \<or> cmp pivot (arr ! binary_search cmp pivot arr left mid) < 0)"
        using "1.IH"(1) [OF True mid_def refl less mid(1)] .
      with less mid show ?thesis
        unfolding eq by auto
    next
      case geq: False
      have eq: "binary_search cmp pivot arr left right
          = binary_search cmp pivot arr (mid + 1) right"
        using True geq
        by (subst binary_search.simps) (simp add: mid_def Let_def)
      have le: "mid + 1 \<le> right"
        using mid by simp
      have "mid + 1 \<le> binary_search cmp pivot arr (mid + 1) right
        \<and> binary_search cmp pivot arr (mid + 1) right \<le> right
        \<and> (binary_search cmp pivot arr (mid + 1) right = mid + 1
            \<or> cmp pivot (arr ! (binary_search cmp pivot arr (mid + 1) right - 1)) \<ge> 0)
        \<and> (binary_search cmp pivot arr (mid + 1) right = right
            \<or> cmp pivot (arr ! binary_search cmp pivot arr (mid + 1) right) < 0)"
        using "1.IH"(2) [OF True mid_def refl geq le] .
      with geq mid show ?thesis
        unfolding eq by auto
    qed
  qed
qed

subsection \<open>The sort permutes\<close>

lemma mset_take_drop: "mset (take n xs) + mset (drop n xs) = mset xs"
  by (metis append_take_drop_id mset_append)

lemma mset_insert_pivot: "mset (insert_pivot cmp front pivot) = add_mset pivot (mset front)"
  by (simp add: insert_pivot_def Let_def mset_take_drop)

lemma mset_BinaryInsertionSort:
  "mset (BinaryInsertionSort cmp run rest) = mset run + mset rest"
  unfolding BinaryInsertionSort_def
  by (induction rest arbitrary: run) (simp_all add: mset_insert_pivot)

lemma CountAndMakeRun_mset:
  "CountAndMakeRun cmp arr = (run, rest) \<Longrightarrow> mset run + mset rest = mset arr"
  by (auto simp: CountAndMakeRun_def Let_def mset_take_drop split: list.splits if_splits)

lemma mset_Array_sort: "mset (Array_sort cmp arr) = mset arr"
  by (cases "CountAndMakeRun cmp arr")
     (simp add: Array_sort_def mset_BinaryInsertionSort CountAndMakeRun_mset)

lemma set_Array_sort: "set (Array_sort cmp arr) = set arr"
  using mset_Array_sort [of cmp arr] by (metis set_mset_mset)

subsection \<open>Runs\<close>

lemma extend_run_ascending:
  "ascending_run cmp (previous # take (extend_run cmp False previous rest) rest)"
  by (induction rest arbitrary: previous) (simp_all add: ascending_run_def Let_def)

lemma extend_run_descending:
  "successively (\<lambda>previous current. cmp current previous < 0)
     (previous # take (extend_run cmp True previous rest) rest)"
  by (induction rest arbitrary: previous) (simp_all add: Let_def)


lemma ascending_run_rev:
  assumes flip: "\<forall>a\<in>S. \<forall>b\<in>S. cmp a b < 0 \<longrightarrow> cmp b a > 0"
    and "set xs \<subseteq> S"
    and "successively (\<lambda>previous current. cmp current previous < 0) xs"
  shows "ascending_run cmp (rev xs)"
proof -
  have "successively (\<lambda>x y. cmp x y \<ge> 0) xs"
  proof (rule successively_mono [OF assms(3)])
    fix x y
    assume "x \<in> set xs" "y \<in> set xs" "cmp y x < 0"
    then have "cmp x y > 0"
      using flip assms(2) by blast
    then show "cmp x y \<ge> 0" by simp
  qed
  then show ?thesis
    by (simp add: ascending_run_def)
qed

lemma CountAndMakeRun_ascending:
  assumes flip: "\<forall>a\<in>S. \<forall>b\<in>S. cmp a b < 0 \<longrightarrow> cmp b a > 0"
    and sub: "set arr \<subseteq> S"
    and run: "CountAndMakeRun cmp arr = (run, rest)"
  shows "ascending_run cmp run"
proof (cases arr)
  case Nil
  with run show ?thesis by (auto simp: CountAndMakeRun_def ascending_run_def)
next
  case (Cons elementHigh tl)
  show ?thesis
  proof (cases tl)
    case Nil
    with Cons run show ?thesis by (auto simp: CountAndMakeRun_def ascending_run_def)
  next
    case (Cons elementLow rest')
    note arr = \<open>arr = elementHigh # tl\<close> Cons
    show ?thesis
    proof (cases "cmp elementLow elementHigh < 0")
      case False
      then have "run = elementHigh # elementLow
          # take (extend_run cmp False elementLow rest') rest'"
        using run by (simp add: arr CountAndMakeRun_def Let_def)
      moreover have "ascending_run cmp
          (elementLow # take (extend_run cmp False elementLow rest') rest')"
        by (rule extend_run_ascending)
      ultimately show ?thesis
        using False by (simp add: ascending_run_def)
    next
      case True
      let ?xs = "elementHigh # elementLow # take (extend_run cmp True elementLow rest') rest'"
      have r: "run = rev ?xs"
        using run True by (simp add: arr CountAndMakeRun_def Let_def)
      have "successively (\<lambda>previous current. cmp current previous < 0)
          (elementLow # take (extend_run cmp True elementLow rest') rest')"
        by (rule extend_run_descending)
      with True have d: "successively (\<lambda>previous current. cmp current previous < 0) ?xs"
        by simp
      have "set ?xs \<subseteq> S"
        using sub by (auto simp: arr dest: in_set_takeD)
      then have "ascending_run cmp (rev ?xs)"
        using d by (rule ascending_run_rev [OF flip])
      then show ?thesis
        by (simp only: r)
    qed
  qed
qed

lemma insert_pivot_ascending:
  assumes flip: "\<forall>a\<in>S. \<forall>b\<in>S. cmp a b < 0 \<longrightarrow> cmp b a > 0"
    and sub: "set front \<subseteq> S" and piv: "pivot \<in> S"
    and asc: "ascending_run cmp front"
  shows "ascending_run cmp (insert_pivot cmp front pivot)"
proof -
  let ?P = "\<lambda>previous current. cmp current previous \<ge> 0"
  define left where "left = binary_search cmp pivot front 0 (length front)"
  have res: "left \<le> length front"
    "left = 0 \<or> cmp pivot (front ! (left - 1)) \<ge> 0"
    "left = length front \<or> cmp pivot (front ! left) < 0"
    using binary_search_result [of 0 "length front" cmp pivot front]
    by (simp_all add: left_def)
  have "successively ?P (take left front @ drop left front)"
    using asc by (simp add: ascending_run_def)
  then have tk: "successively ?P (take left front)" and dr: "successively ?P (drop left front)"
    unfolding successively_append_iff by blast+
  have after: "successively ?P (pivot # drop left front)"
  proof (cases "left = length front")
    case True
    then show ?thesis by simp
  next
    case False
    with res have lt: "left < length front" and neg: "cmp pivot (front ! left) < 0"
      by simp_all
    have "front ! left \<in> S"
      using lt sub by (meson nth_mem subsetD)
    then have "cmp (front ! left) pivot > 0"
      using flip piv neg by blast
    then have "?P pivot (hd (drop left front))"
      using lt by (simp add: hd_drop_conv_nth)
    with dr show ?thesis
      by (simp add: successively_Cons)
  qed
  have before: "take left front = [] \<or> ?P (last (take left front)) pivot"
  proof (cases "left = 0")
    case True
    then show ?thesis by simp
  next
    case False
    with res have pos: "0 < left" and ge: "cmp pivot (front ! (left - 1)) \<ge> 0"
      by simp_all
    have "take left front \<noteq> []"
      using pos res(1) by auto
    then have "last (take left front) = front ! (left - 1)"
      using pos res(1) by (simp add: last_conv_nth min_def)
    with ge show ?thesis by simp
  qed
  have "successively ?P (take left front @ pivot # drop left front)"
    using tk after before by (simp add: successively_append_iff)
  then show ?thesis
    by (simp add: ascending_run_def insert_pivot_def left_def Let_def)
qed

lemma set_insert_pivot: "set (insert_pivot cmp front pivot) = insert pivot (set front)"
  using mset_insert_pivot [of cmp front pivot] by (metis set_mset_mset set_mset_add_mset_insert)

lemma BinaryInsertionSort_ascending:
  assumes flip: "\<forall>a\<in>S. \<forall>b\<in>S. cmp a b < 0 \<longrightarrow> cmp b a > 0"
  shows "set run \<subseteq> S \<Longrightarrow> set rest \<subseteq> S \<Longrightarrow> ascending_run cmp run
    \<Longrightarrow> ascending_run cmp (BinaryInsertionSort cmp run rest)"
  unfolding BinaryInsertionSort_def
proof (induction rest arbitrary: run)
  case Nil
  then show ?case by simp
next
  case (Cons pivot rest)
  have piv: "pivot \<in> S" and rest: "set rest \<subseteq> S"
    using Cons.prems(2) by simp_all
  have "ascending_run cmp (insert_pivot cmp run pivot)"
    using Cons.prems(1) piv Cons.prems(3) by (rule insert_pivot_ascending [OF flip])
  moreover have "set (insert_pivot cmp run pivot) \<subseteq> S"
    using Cons.prems(1) piv by (simp add: set_insert_pivot)
  ultimately show ?case
    using Cons.IH [of "insert_pivot cmp run pivot"] rest by simp
qed

lemma Array_sort_ascending:
  assumes flip: "\<forall>a\<in>S. \<forall>b\<in>S. cmp a b < 0 \<longrightarrow> cmp b a > 0"
    and sub: "set arr \<subseteq> S"
  shows "ascending_run cmp (Array_sort cmp arr)"
proof (cases "CountAndMakeRun cmp arr")
  case (Pair run rest)
  have "mset run + mset rest = mset arr"
    using Pair by (rule CountAndMakeRun_mset)
  then have "set run \<union> set rest = set arr"
    by (metis set_mset_mset set_mset_union)
  with sub have "set run \<subseteq> S" "set rest \<subseteq> S"
    by auto
  moreover have "ascending_run cmp run"
    using flip sub Pair by (rule CountAndMakeRun_ascending)
  ultimately show ?thesis
    by (simp add: Array_sort_def Pair BinaryInsertionSort_ascending [OF flip])
qed




subsection \<open>Consistent comparators\<close>

lemma consistent_on_iff:
  "consistent_on cmp xs \<longleftrightarrow>
     (\<forall>a\<in>set xs. \<forall>b\<in>set xs.
        sgn (cmp b a) = - sgn (cmp a b)
        \<and> (\<forall>c\<in>set xs. cmp a b \<le> 0 \<and> cmp b c \<le> 0 \<longrightarrow> cmp a c \<le> 0))"
  unfolding consistent_on_def list_all_iff
  by (intro ball_cong refl arg_cong2 [where f = "(\<and>)"]) (metis (full_types))+

lemma consistent_on_flip:
  assumes "consistent_on cmp xs" and "a \<in> set xs" and "b \<in> set xs"
  shows "cmp a b < 0 \<longleftrightarrow> cmp b a > 0" and "cmp a b = 0 \<longleftrightarrow> cmp b a = 0"
proof -
  have "sgn (cmp b a) = - sgn (cmp a b)"
    using assms unfolding consistent_on_iff by blast
  then show "cmp a b < 0 \<longleftrightarrow> cmp b a > 0" and "cmp a b = 0 \<longleftrightarrow> cmp b a = 0"
    by (auto simp: sgn_if split: if_splits)
qed

lemma consistent_on_trans:
  assumes "consistent_on cmp xs" and "a \<in> set xs" and "b \<in> set xs" and "c \<in> set xs"
    and "cmp a b \<le> 0" and "cmp b c \<le> 0"
  shows "cmp a c \<le> 0"
  using assms unfolding consistent_on_iff by blast

lemma consistent_on_strict_trans:
  assumes con: "consistent_on cmp xs"
    and mem: "a \<in> set xs" "b \<in> set xs" "c \<in> set xs"
    and ab: "cmp a b < 0" and bc: "cmp b c \<le> 0"
  shows "cmp a c < 0"
proof (rule ccontr)
  assume "\<not> cmp a c < 0"
  moreover have "cmp a c \<le> 0"
    using consistent_on_trans [OF con mem] ab bc by simp
  ultimately have "cmp a c = 0" by simp
  then have "cmp c a \<le> 0"
    using consistent_on_flip(2) [OF con mem(1,3)] by simp
  then have "cmp b a \<le> 0"
    using consistent_on_trans [OF con mem(2,3,1) bc] by simp
  moreover have "cmp b a > 0"
    using consistent_on_flip(1) [OF con mem(1,2)] ab by simp
  ultimately show False by simp
qed

lemma ascending_run_sorted:
  assumes con: "consistent_on cmp xs" and sub: "set ys \<subseteq> set xs"
    and asc: "ascending_run cmp ys"
  shows "sorted_wrt (\<lambda>a b. cmp a b \<le> 0) ys"
proof -
  have "successively (\<lambda>a b. cmp a b \<le> 0) ys"
  proof (rule successively_mono [OF asc [unfolded ascending_run_def]])
    fix x y
    assume xy: "x \<in> set ys" "y \<in> set ys" and ge: "0 \<le> cmp y x"
    show "cmp x y \<le> 0"
    proof (rule ccontr)
      assume "\<not> cmp x y \<le> 0"
      then have "cmp x y > 0" by simp
      then have "cmp y x < 0"
        using consistent_on_flip(1) [OF con, of y x] xy sub by blast
      with ge show False by simp
    qed
  qed
  moreover have "successively (\<lambda>a b. cmp a b \<le> 0) ys \<longleftrightarrow> sorted_wrt (\<lambda>a b. cmp a b \<le> 0) ys"
  proof (rule successively_iff_sorted_wrt_strong)
    fix x y z
    assume "x \<in> set ys" "y \<in> set ys" "z \<in> set ys" "cmp x y \<le> 0" "cmp y z \<le> 0"
    then show "cmp x z \<le> 0"
      using consistent_on_trans [OF con, of x y z] sub by blast
  qed
  ultimately show ?thesis by simp
qed

lemma sorted_Array_sort:
  assumes "consistent_on cmp arr"
  shows "sorted_wrt (\<lambda>a b. cmp a b \<le> 0) (Array_sort cmp arr)"
proof (rule ascending_run_sorted [OF assms])
  show "set (Array_sort cmp arr) \<subseteq> set arr"
    by (simp add: set_Array_sort)
  have "\<forall>a\<in>set arr. \<forall>b\<in>set arr. cmp a b < 0 \<longrightarrow> cmp b a > 0"
    using consistent_on_flip(1) [OF assms] by blast
  then show "ascending_run cmp (Array_sort cmp arr)"
    by (rule Array_sort_ascending) simp
qed

subsection \<open>Stability\<close>

lemma filter_rev_strict:
  assumes "sorted_wrt R xs"
    and "\<forall>x\<in>set xs. \<forall>y\<in>set xs. P x \<and> P y \<longrightarrow> \<not> R x y"
  shows "filter P (rev xs) = filter P xs"
  using assms
proof (induction xs)
  case Nil
  show ?case by simp
next
  case (Cons x xs)
  have IH: "filter P (rev xs) = filter P xs"
    using Cons by simp
  show ?case
  proof (cases "P x")
    case False
    with IH show ?thesis by simp
  next
    case True
    have "\<not> P y" if "y \<in> set xs" for y
      using Cons.prems that True by auto
    then have "filter P xs = []"
      by (simp add: filter_empty_conv)
    with IH True show ?thesis by simp
  qed
qed

lemma CountAndMakeRun_stable:
  assumes con: "consistent_on cmp arr"
    and eq: "\<forall>x\<in>set arr. \<forall>y\<in>set arr. P x \<and> P y \<longrightarrow> cmp x y = 0"
    and run: "CountAndMakeRun cmp arr = (run, rest)"
  shows "filter P run @ filter P rest = filter P arr"
proof (cases arr)
  case Nil
  with run show ?thesis by (auto simp: CountAndMakeRun_def)
next
  case (Cons elementHigh tl)
  show ?thesis
  proof (cases tl)
    case Nil
    with Cons run show ?thesis by (auto simp: CountAndMakeRun_def)
  next
    case (Cons elementLow rest')
    note arr = \<open>arr = elementHigh # tl\<close> Cons
    define n where "n = 2 + extend_run cmp (cmp elementLow elementHigh < 0) elementLow rest'"
    have split: "filter P (take n arr) @ filter P (drop n arr) = filter P arr"
      by (metis append_take_drop_id filter_append)
    show ?thesis
    proof (cases "cmp elementLow elementHigh < 0")
      case False
      then have "run = take n arr" "rest = drop n arr"
        using run by (simp_all add: arr CountAndMakeRun_def Let_def n_def)
      with split show ?thesis by simp
    next
      case True
      then have r: "run = rev (take n arr)" "rest = drop n arr"
        using run by (simp_all add: arr CountAndMakeRun_def Let_def n_def)
      have tk: "take n arr
          = elementHigh # elementLow # take (extend_run cmp True elementLow rest') rest'"
        using True by (simp add: arr n_def)
      have "successively (\<lambda>previous current. cmp current previous < 0)
          (elementLow # take (extend_run cmp True elementLow rest') rest')"
        by (rule extend_run_descending)
      with True have d: "successively (\<lambda>previous current. cmp current previous < 0) (take n arr)"
        by (simp add: tk)
      have sub: "set (take n arr) \<subseteq> set arr"
        by (rule set_take_subset)
      have "successively (\<lambda>previous current. cmp current previous < 0) (take n arr)
          \<longleftrightarrow> sorted_wrt (\<lambda>previous current. cmp current previous < 0) (take n arr)"
      proof (rule successively_iff_sorted_wrt_strong)
        fix x y z
        assume "x \<in> set (take n arr)" "y \<in> set (take n arr)" "z \<in> set (take n arr)"
          "cmp y x < 0" "cmp z y < 0"
        then show "cmp z x < 0"
          using consistent_on_strict_trans [OF con, of z y x] sub by auto
      qed
      with d have s: "sorted_wrt (\<lambda>previous current. cmp current previous < 0) (take n arr)"
        by simp
      have "filter P (rev (take n arr)) = filter P (take n arr)"
      proof (rule filter_rev_strict [OF s], intro ballI impI)
        fix x y
        assume "x \<in> set (take n arr)" "y \<in> set (take n arr)" "P x \<and> P y"
        then have "cmp y x = 0"
          using eq sub by blast
        then show "\<not> cmp y x < 0" by simp
      qed
      with split r show ?thesis by simp
    qed
  qed
qed

lemma insert_pivot_stable:
  assumes con: "consistent_on cmp xs"
    and sub: "set front \<subseteq> set xs" and piv: "pivot \<in> set xs"
    and eq: "\<forall>x\<in>set xs. \<forall>y\<in>set xs. P x \<and> P y \<longrightarrow> cmp x y = 0"
    and sorted: "sorted_wrt (\<lambda>a b. cmp a b \<le> 0) front"
  shows "filter P (insert_pivot cmp front pivot) = filter P front @ filter P [pivot]"
proof -
  define left where "left = binary_search cmp pivot front 0 (length front)"
  have res: "left \<le> length front" "left = length front \<or> cmp pivot (front ! left) < 0"
    using binary_search_result [of 0 "length front" cmp pivot front]
    by (simp_all add: left_def)
  have ins: "insert_pivot cmp front pivot = take left front @ pivot # drop left front"
    by (simp add: insert_pivot_def left_def Let_def)
  have split: "filter P (take left front) @ filter P (drop left front) = filter P front"
    by (metis append_take_drop_id filter_append)
  show ?thesis
  proof (cases "P pivot")
    case False
    with split show ?thesis by (simp add: ins)
  next
    case True
    have "\<not> P e" if e: "e \<in> set (drop left front)" for e
    proof -
      from e have lt: "left < length front"
        by (cases "left < length front") simp_all
      with res have neg: "cmp pivot (front ! left) < 0" by simp
      have dr: "drop left front = front ! left # drop (Suc left) front"
        using lt by (simp add: Cons_nth_drop_Suc)
      have mem: "front ! left \<in> set xs" "e \<in> set xs"
        using lt sub e by (auto dest: in_set_dropD)
      have "sorted_wrt (\<lambda>a b. cmp a b \<le> 0) (drop left front)"
        using sorted by (rule sorted_wrt_drop)
      then have "e = front ! left \<or> cmp (front ! left) e \<le> 0"
        using e by (auto simp: dr)
      moreover have "cmp (front ! left) (front ! left) \<le> 0"
        using consistent_on_flip(2) [OF con mem(1) mem(1)]
          consistent_on_flip(1) [OF con mem(1) mem(1)] by linarith
      ultimately have "cmp (front ! left) e \<le> 0" by auto
      then have "cmp pivot e < 0"
        using consistent_on_strict_trans [OF con piv mem neg] by simp
      then show ?thesis
        using eq piv mem(2) True by force
    qed
    then have "filter P (drop left front) = []"
      by (simp add: filter_empty_conv)
    with split True show ?thesis by (simp add: ins)
  qed
qed

lemma BinaryInsertionSort_stable:
  assumes con: "consistent_on cmp xs"
    and eq: "\<forall>x\<in>set xs. \<forall>y\<in>set xs. P x \<and> P y \<longrightarrow> cmp x y = 0"
  shows "set run \<subseteq> set xs \<Longrightarrow> set rest \<subseteq> set xs \<Longrightarrow> ascending_run cmp run
    \<Longrightarrow> filter P (BinaryInsertionSort cmp run rest) = filter P run @ filter P rest"
  unfolding BinaryInsertionSort_def
proof (induction rest arbitrary: run)
  case Nil
  show ?case by simp
next
  case (Cons pivot rest)
  have piv: "pivot \<in> set xs" and rest: "set rest \<subseteq> set xs"
    using Cons.prems(2) by simp_all
  have flip: "\<forall>a\<in>set xs. \<forall>b\<in>set xs. cmp a b < 0 \<longrightarrow> cmp b a > 0"
    using consistent_on_flip(1) [OF con] by blast
  have sorted: "sorted_wrt (\<lambda>a b. cmp a b \<le> 0) run"
    using con Cons.prems(1,3) by (rule ascending_run_sorted)
  have st: "filter P (insert_pivot cmp run pivot) = filter P run @ filter P [pivot]"
    using con Cons.prems(1) piv eq sorted by (rule insert_pivot_stable)
  have asc: "ascending_run cmp (insert_pivot cmp run pivot)"
    using Cons.prems(1) piv Cons.prems(3) by (rule insert_pivot_ascending [OF flip])
  have sub: "set (insert_pivot cmp run pivot) \<subseteq> set xs"
    using Cons.prems(1) piv by (simp add: set_insert_pivot)
  show ?case
    using Cons.IH [OF sub rest asc] st by simp
qed

lemma stable_Array_sort:
  assumes con: "consistent_on cmp arr"
    and eq: "\<forall>x\<in>set arr. \<forall>y\<in>set arr. P x \<and> P y \<longrightarrow> cmp x y = 0"
  shows "filter P (Array_sort cmp arr) = filter P arr"
proof (cases "CountAndMakeRun cmp arr")
  case (Pair run rest)
  have "mset run + mset rest = mset arr"
    using Pair by (rule CountAndMakeRun_mset)
  then have "set run \<union> set rest = set arr"
    by (metis set_mset_mset set_mset_union)
  then have sub: "set run \<subseteq> set arr" "set rest \<subseteq> set arr"
    by auto
  have flip: "\<forall>a\<in>set arr. \<forall>b\<in>set arr. cmp a b < 0 \<longrightarrow> cmp b a > 0"
    using consistent_on_flip(1) [OF con] by blast
  have asc: "ascending_run cmp run"
    using flip subset_refl Pair by (rule CountAndMakeRun_ascending)
  have "filter P (BinaryInsertionSort cmp run rest) = filter P run @ filter P rest"
    using sub asc by (rule BinaryInsertionSort_stable [OF con eq])
  also have "\<dots> = filter P arr"
    using con eq Pair by (rule CountAndMakeRun_stable)
  finally show ?thesis
    by (simp add: Array_sort_def Pair)
qed


subsection \<open>The result the language fixes\<close>

lemma consistent_on_refl:
  assumes "consistent_on cmp xs" and "a \<in> set xs"
  shows "cmp a a = 0"
  using consistent_on_flip [OF assms(1,2,2)] by linarith

lemma stable_sorted_unique:
  assumes con: "consistent_on cmp xs"
  shows "set ys \<subseteq> set xs \<Longrightarrow> mset ys = mset zs
    \<Longrightarrow> sorted_wrt (\<lambda>a b. cmp a b \<le> 0) ys \<Longrightarrow> sorted_wrt (\<lambda>a b. cmp a b \<le> 0) zs
    \<Longrightarrow> \<forall>a\<in>set xs. filter (\<lambda>x. cmp a x = 0) ys = filter (\<lambda>x. cmp a x = 0) zs
    \<Longrightarrow> ys = zs"
proof (induction ys arbitrary: zs)
  case Nil
  then show ?case by simp
next
  case (Cons y ys)
  from Cons.prems(2) have "zs \<noteq> []" by auto
  then obtain z zs' where zs: "zs = z # zs'"
    by (cases zs) auto
  have sets: "set (y # ys) = set (z # zs')"
    using Cons.prems(2) unfolding zs by (metis set_mset_mset)
  have y: "y \<in> set xs" and z: "z \<in> set xs"
    using Cons.prems(1) sets by auto
  have yy: "cmp y y = 0"
    using con y by (rule consistent_on_refl)
  have "z = y \<or> z \<in> set ys"
    using sets by auto
  then have yz: "cmp y z \<le> 0"
    using Cons.prems(3) yy by auto
  have "y = z \<or> y \<in> set zs'"
    using sets by auto
  then have zy: "cmp z y \<le> 0"
    using Cons.prems(4) yy unfolding zs by auto
  have eq0: "cmp y z = 0"
    using yz zy consistent_on_flip(1) [OF con y z] by linarith
  have "filter (\<lambda>x. cmp y x = 0) (y # ys) = filter (\<lambda>x. cmp y x = 0) (z # zs')"
    using Cons.prems(5) y unfolding zs by blast
  then have same: "y = z"
    using yy eq0 by simp
  have "ys = zs'"
  proof (rule Cons.IH)
    show "set ys \<subseteq> set xs"
      using Cons.prems(1) by simp
    show "mset ys = mset zs'"
      using Cons.prems(2) by (simp add: zs same)
    show "sorted_wrt (\<lambda>a b. cmp a b \<le> 0) ys"
      using Cons.prems(3) by simp
    show "sorted_wrt (\<lambda>a b. cmp a b \<le> 0) zs'"
      using Cons.prems(4) by (simp add: zs)
    show "\<forall>a\<in>set xs. filter (\<lambda>x. cmp a x = 0) ys = filter (\<lambda>x. cmp a x = 0) zs'"
    proof
      fix a
      assume "a \<in> set xs"
      then have "filter (\<lambda>x. cmp a x = 0) (z # ys) = filter (\<lambda>x. cmp a x = 0) (z # zs')"
        using Cons.prems(5) by (simp add: zs same)
      then show "filter (\<lambda>x. cmp a x = 0) ys = filter (\<lambda>x. cmp a x = 0) zs'"
        by (cases "cmp a z = 0") simp_all
    qed
  qed
  with same show ?case by (simp add: zs)
qed

lemma Array_sort_unique:
  assumes con: "consistent_on cmp arr"
    and perm: "mset ys = mset arr"
    and sorted: "sorted_wrt (\<lambda>a b. cmp a b \<le> 0) ys"
    and stable: "\<forall>a\<in>set arr. filter (\<lambda>x. cmp a x = 0) ys = filter (\<lambda>x. cmp a x = 0) arr"
  shows "Array_sort cmp arr = ys"
proof (rule stable_sorted_unique [OF con])
  show "set (Array_sort cmp arr) \<subseteq> set arr"
    by (simp add: set_Array_sort)
  show "mset (Array_sort cmp arr) = mset ys"
    by (simp add: mset_Array_sort perm)
  show "sorted_wrt (\<lambda>a b. cmp a b \<le> 0) (Array_sort cmp arr)"
    using con by (rule sorted_Array_sort)
  show "sorted_wrt (\<lambda>a b. cmp a b \<le> 0) ys"
    by (rule sorted)
  show "\<forall>a\<in>set arr. filter (\<lambda>x. cmp a x = 0) (Array_sort cmp arr) = filter (\<lambda>x. cmp a x = 0) ys"
  proof
    fix a
    assume a: "a \<in> set arr"
    have "filter (\<lambda>x. cmp a x = 0) (Array_sort cmp arr) = filter (\<lambda>x. cmp a x = 0) arr"
    proof (rule stable_Array_sort [OF con], intro ballI impI)
      fix x y
      assume x: "x \<in> set arr" and y: "y \<in> set arr" and "cmp a x = 0 \<and> cmp a y = 0"
      then have ax: "cmp a x = 0" and ay: "cmp a y = 0"
        by simp_all
      have xa: "cmp x a = 0" and ya: "cmp y a = 0"
        using consistent_on_flip(2) [OF con a x] consistent_on_flip(2) [OF con a y] ax ay
        by simp_all
      have "cmp x y \<le> 0"
        using consistent_on_trans [OF con x a y] xa ay by simp
      moreover have "cmp y x \<le> 0"
        using consistent_on_trans [OF con y a x] ya ax by simp
      ultimately show "cmp x y = 0"
        using consistent_on_flip(1) [OF con x y] by linarith
    qed
    with stable a show "filter (\<lambda>x. cmp a x = 0) (Array_sort cmp arr) = filter (\<lambda>x. cmp a x = 0) ys"
      by simp
  qed
qed

subsection \<open>The comparator\<close>

lemma compareRecords_flip:
  assumes "antisymmetric_compare lc"
  shows "sgn (compareRecords lc items b a) = - sgn (compareRecords lc items a b)"
proof (induction items)
  case Nil
  show ?case by simp
next
  case (Cons item items)
  have lc: "sgn (lc t s) = - sgn (lc s t)" for s t
    using assms unfolding antisymmetric_compare_def by blast
  let ?av = "get_prop a (field item)" and ?bv = "get_prop b (field item)"
  show ?case
  proof (cases "?av = ?bv")
    case True
    then show ?thesis
      using Cons.IH by (simp add: Let_def)
  next
    case False
    then have ne: "?bv \<noteq> ?av"
      by (rule not_sym)
    consider "?av = JUndefined" | "?av \<noteq> JUndefined" "?bv = JUndefined"
      | "?av \<noteq> JUndefined" "?bv \<noteq> JUndefined"
      by blast
    then show ?thesis
    proof cases
      case 1
      with False ne show ?thesis by (simp add: Let_def)
    next
      case 2
      with False ne show ?thesis by (simp add: Let_def)
    next
      case 3
      with False ne lc [of "String_of ?av" "String_of ?bv"] show ?thesis
        by (simp add: Let_def sgn_minus)
    qed
  qed
qed


lemma compareRecords_find:
  "compareRecords lc items a b
     = (case find (\<lambda>item. get_prop a (field item) \<noteq> get_prop b (field item)) items of
          None \<Rightarrow> 0
        | Some item \<Rightarrow> spec_decide lc item a b)"
proof (induction items)
  case Nil
  show ?case by simp
next
  case (Cons item items)
  show ?case
  proof (cases "get_prop a (field item) = get_prop b (field item)")
    case True
    with Cons.IH show ?thesis by (simp add: Let_def)
  next
    case False
    then show ?thesis
      by (cases "direction item"; cases "the (direction item)")
         (auto simp: Let_def spec_decide_def)
  qed
qed

lemma equal_under_compare: "equal_under items a b \<Longrightarrow> compareRecords lc items a b = 0"
  by (induction items) (simp_all add: equal_under_def Let_def)

lemma equal_under_sym: "equal_under items a b \<Longrightarrow> equal_under items b a"
  by (simp add: equal_under_def list_all_iff)

lemma equal_under_trans:
  "equal_under items a b \<Longrightarrow> equal_under items b c \<Longrightarrow> equal_under items a c"
  by (simp add: equal_under_def list_all_iff)

lemma stable_compareRecords:
  assumes "consistent_on (compareRecords lc items) xs"
  shows "filter (equal_under items a) (Array_sort (compareRecords lc items) xs)
     = filter (equal_under items a) xs"
proof (rule stable_Array_sort [OF assms], intro ballI impI)
  fix x y
  assume "equal_under items a x \<and> equal_under items a y"
  then have "equal_under items x y"
    by (blast intro: equal_under_sym equal_under_trans)
  then show "compareRecords lc items x y = 0"
    by (rule equal_under_compare)
qed

subsection \<open>The collation used on concrete inputs\<close>


subsection \<open>The stages\<close>








subsection \<open>When the comparator is consistent\<close>

lemma compareRecords_Cons:
  "compareRecords lc (item # rest) a b
     = (if get_prop a (field item) = get_prop b (field item) then compareRecords lc rest a b
        else spec_decide lc item a b)"
  by (cases "direction item"; cases "the (direction item)") (auto simp: Let_def spec_decide_def)

lemma antisymmetric_compareD:
  assumes "antisymmetric_compare lc"
  shows "lc s t > 0 \<longleftrightarrow> lc t s < 0" and "lc s t = 0 \<longleftrightarrow> lc t s = 0"
proof -
  have "sgn (lc t s) = - sgn (lc s t)"
    using assms unfolding antisymmetric_compare_def by blast
  then show "lc s t > 0 \<longleftrightarrow> lc t s < 0" and "lc s t = 0 \<longleftrightarrow> lc t s = 0"
    by (auto simp: sgn_if split: if_splits)
qed

lemma spec_decide_trans:
  assumes anti: "antisymmetric_compare lc" and trans: "transitive_compare lc"
    and ab: "get_prop a (field item) \<noteq> get_prop b (field item)"
    and bc: "get_prop b (field item) \<noteq> get_prop c (field item)"
    and apart_ab: "lc (String_of (get_prop a (field item))) (String_of (get_prop b (field item))) \<noteq> 0"
    and apart_bc: "lc (String_of (get_prop b (field item))) (String_of (get_prop c (field item))) \<noteq> 0"
    and le_ab: "spec_decide lc item a b \<le> 0"
    and le_bc: "spec_decide lc item b c \<le> 0"
  shows "get_prop a (field item) \<noteq> get_prop c (field item) \<and> spec_decide lc item a c \<le> 0"
proof -
  let ?va = "get_prop a (field item)" and ?vb = "get_prop b (field item)"
    and ?vc = "get_prop c (field item)"
  let ?sa = "String_of ?va" and ?sb = "String_of ?vb" and ?sc = "String_of ?vc"
  have tr: "lc s t \<le> 0 \<Longrightarrow> lc t u \<le> 0 \<Longrightarrow> lc s u \<le> 0" for s t u
    using trans unfolding transitive_compare_def by blast
  note flip = antisymmetric_compareD [OF anti]
  show ?thesis
  proof (cases "direction item = Some desc")
    case False
    then have d: "spec_decide lc item x y
        = (if get_prop x (field item) = JUndefined then - 1
           else if get_prop y (field item) = JUndefined then 1
           else lc (String_of (get_prop x (field item))) (String_of (get_prop y (field item))))"
      for x y by (simp add: spec_decide_def)
    show ?thesis
    proof (cases "?va = JUndefined")
      case True
      with ab have "?vb \<noteq> JUndefined" by simp
      with le_bc bc have "?vc \<noteq> JUndefined"
        by (auto simp: d split: if_splits)
      with True show ?thesis by (simp add: d)
    next
      case va: False
      with le_ab have vb: "?vb \<noteq> JUndefined" and l1: "lc ?sa ?sb \<le> 0"
        by (auto simp: d split: if_splits)
      with le_bc have vc: "?vc \<noteq> JUndefined" and l2: "lc ?sb ?sc \<le> 0"
        by (auto simp: d split: if_splits)
      have l3: "lc ?sa ?sc \<le> 0"
        using tr [OF l1 l2] .
      have "?va \<noteq> ?vc"
      proof
        assume eq: "?va = ?vc"
        from l1 apart_ab have "lc ?sa ?sb < 0" by simp
        then have "lc ?sb ?sa > 0" using flip(1) [of ?sb ?sa] by simp
        with l2 eq show False by simp
      qed
      with va vc l3 show ?thesis by (simp add: d)
    qed
  next
    case True
    then have d: "spec_decide lc item x y
        = (if get_prop x (field item) = JUndefined then 1
           else if get_prop y (field item) = JUndefined then - 1
           else - lc (String_of (get_prop x (field item))) (String_of (get_prop y (field item))))"
      for x y by (simp add: spec_decide_def)
    from le_ab have va: "?va \<noteq> JUndefined"
      by (auto simp: d split: if_splits)
    from le_bc have vb: "?vb \<noteq> JUndefined"
      by (auto simp: d split: if_splits)
    from le_ab va vb have l1: "lc ?sa ?sb \<ge> 0"
      by (simp add: d)
    show ?thesis
    proof (cases "?vc = JUndefined")
      case True
      with va show ?thesis by (auto simp: d)
    next
      case vc: False
      with le_bc vb have l2: "lc ?sb ?sc \<ge> 0"
        by (simp add: d)
      from l1 apart_ab have "lc ?sa ?sb > 0" by simp
      then have r1: "lc ?sb ?sa \<le> 0" using flip(1) [of ?sa ?sb] by simp
      from l2 apart_bc have "lc ?sb ?sc > 0" by simp
      then have r2: "lc ?sc ?sb \<le> 0" using flip(1) [of ?sb ?sc] by simp
      have r3: "lc ?sc ?sa \<le> 0"
        using tr [OF r2 r1] .
      have l3: "lc ?sa ?sc \<ge> 0"
      proof (rule ccontr)
        assume "\<not> lc ?sa ?sc \<ge> 0"
        then have "lc ?sa ?sc < 0" by simp
        then have "lc ?sc ?sa > 0" using flip(1) [of ?sc ?sa] by simp
        with r3 show False by simp
      qed
      have "?va \<noteq> ?vc"
      proof
        assume eq: "?va = ?vc"
        from \<open>lc ?sa ?sb > 0\<close> r2 eq flip(1) [of ?sa ?sb] show False
          using \<open>lc ?sb ?sc > 0\<close> flip(1) [of ?sb ?sc] by simp
      qed
      with va vc l3 show ?thesis by (simp add: d)
    qed
  qed
qed

lemma spec_decide_cong:
  "get_prop a (field item) = get_prop a' (field item)
   \<Longrightarrow> get_prop b (field item) = get_prop b' (field item)
   \<Longrightarrow> spec_decide lc item a b = spec_decide lc item a' b'"
  by (simp add: spec_decide_def)

lemma compareRecords_trans:
  assumes anti: "antisymmetric_compare lc" and trans: "transitive_compare lc"
    and apart: "\<And>item x y. item \<in> set items \<Longrightarrow> x \<in> {a, b, c} \<Longrightarrow> y \<in> {a, b, c}
        \<Longrightarrow> get_prop x (field item) \<noteq> get_prop y (field item)
        \<Longrightarrow> lc (String_of (get_prop x (field item))) (String_of (get_prop y (field item))) \<noteq> 0"
    and "compareRecords lc items a b \<le> 0"
    and "compareRecords lc items b c \<le> 0"
  shows "compareRecords lc items a c \<le> 0"
  using assms(3-)
proof (induction items)
  case Nil
  show ?case by simp
next
  case (Cons item rest)
  let ?va = "get_prop a (field item)" and ?vb = "get_prop b (field item)"
    and ?vc = "get_prop c (field item)"
  have apart_rest: "\<And>it x y. it \<in> set rest \<Longrightarrow> x \<in> {a, b, c} \<Longrightarrow> y \<in> {a, b, c}
        \<Longrightarrow> get_prop x (field it) \<noteq> get_prop y (field it)
        \<Longrightarrow> lc (String_of (get_prop x (field it))) (String_of (get_prop y (field it))) \<noteq> 0"
    using Cons.prems(1) by simp
  have apart_here: "\<And>x y. x \<in> {a, b, c} \<Longrightarrow> y \<in> {a, b, c}
        \<Longrightarrow> get_prop x (field item) \<noteq> get_prop y (field item)
        \<Longrightarrow> lc (String_of (get_prop x (field item))) (String_of (get_prop y (field item))) \<noteq> 0"
    using Cons.prems(1) by simp
  show ?case
  proof (cases "?va = ?vb")
    case ab: True
    show ?thesis
    proof (cases "?vb = ?vc")
      case True
      with ab Cons.prems(2,3) Cons.IH [OF apart_rest] show ?thesis
        by (simp add: compareRecords_Cons del: compareRecords.simps(2))
    next
      case False
      have "spec_decide lc item a c = spec_decide lc item b c"
        using ab by (intro spec_decide_cong) simp_all
      with ab False Cons.prems(3) show ?thesis
        by (simp add: compareRecords_Cons del: compareRecords.simps(2))
    qed
  next
    case ab: False
    show ?thesis
    proof (cases "?vb = ?vc")
      case True
      have "spec_decide lc item a c = spec_decide lc item a b"
        using True by (intro spec_decide_cong) simp_all
      with ab True Cons.prems(2) show ?thesis
        by (simp add: compareRecords_Cons del: compareRecords.simps(2))
    next
      case bc: False
      have "?va \<noteq> ?vc \<and> spec_decide lc item a c \<le> 0"
      proof (rule spec_decide_trans [OF anti trans ab bc])
        show "lc (String_of ?va) (String_of ?vb) \<noteq> 0"
          using apart_here [of a b] ab by simp
        show "lc (String_of ?vb) (String_of ?vc) \<noteq> 0"
          using apart_here [of b c] bc by simp
        show "spec_decide lc item a b \<le> 0"
          using Cons.prems(2) ab by (simp add: compareRecords_Cons del: compareRecords.simps(2))
        show "spec_decide lc item b c \<le> 0"
          using Cons.prems(3) bc by (simp add: compareRecords_Cons del: compareRecords.simps(2))
      qed
      then show ?thesis
        by (simp add: compareRecords_Cons del: compareRecords.simps(2))
    qed
  qed
qed

lemma told_apartD:
  assumes "told_apart lc items xs" and "item \<in> set items" and "x \<in> set xs" and "y \<in> set xs"
    and "get_prop x (field item) \<noteq> get_prop y (field item)"
  shows "lc (String_of (get_prop x (field item))) (String_of (get_prop y (field item))) \<noteq> 0"
proof -
  have "\<forall>item\<in>set items. \<forall>a\<in>set xs. \<forall>b\<in>set xs.
      if get_prop a (field item) \<noteq> get_prop b (field item)
      then lc (String_of (get_prop a (field item))) (String_of (get_prop b (field item))) \<noteq> 0
      else True"
    using assms(1) unfolding told_apart_def list_all_iff .
  then have "if get_prop x (field item) \<noteq> get_prop y (field item)
      then lc (String_of (get_prop x (field item))) (String_of (get_prop y (field item))) \<noteq> 0
      else True"
    using assms(2,3,4) by blast
  with assms(5) show ?thesis by (metis (full_types))
qed

lemma consistent_compareRecords:
  assumes anti: "antisymmetric_compare lc" and trans: "transitive_compare lc"
    and apart: "told_apart lc items xs"
  shows "consistent_on (compareRecords lc items) xs"
  unfolding consistent_on_iff
proof (intro ballI conjI impI)
  fix a b
  show "sgn (compareRecords lc items b a) = - sgn (compareRecords lc items a b)"
    by (rule compareRecords_flip [OF anti])
next
  fix a b c
  assume mem: "a \<in> set xs" "b \<in> set xs" "c \<in> set xs"
    and le: "compareRecords lc items a b \<le> 0 \<and> compareRecords lc items b c \<le> 0"
  show "compareRecords lc items a c \<le> 0"
  proof (rule compareRecords_trans [OF anti trans])
    fix item x y
    assume "item \<in> set items" "x \<in> {a, b, c}" "y \<in> {a, b, c}"
      "get_prop x (field item) \<noteq> get_prop y (field item)"
    then show "lc (String_of (get_prop x (field item))) (String_of (get_prop y (field item))) \<noteq> 0"
      using told_apartD [OF apart, of item x y] mem by blast
  qed (use le in simp_all)
qed

subsection \<open>Order, identity and idempotence of the pipeline\<close>

lemma decimal_1: "decimal (Suc 0) = ''1''"
  by (simp add: decimal.simps digit_char_def)

lemma cmp_mixed_items:
  "compareRecords ordinal_compare mixed_items a b
     = (if get_prop a ''f'' = get_prop b ''f''
        then (if get_prop a ''g'' = get_prop b ''g'' then 0
              else if get_prop a ''g'' = JUndefined then - 1
              else if get_prop b ''g'' = JUndefined then 1
              else ordinal_compare (String_of (get_prop a ''g'')) (String_of (get_prop b ''g'')))
        else if get_prop a ''f'' = JUndefined then - 1
        else if get_prop b ''f'' = JUndefined then 1
        else ordinal_compare (String_of (get_prop a ''f'')) (String_of (get_prop b ''f'')))"
  by (simp add: mixed_items_def Let_def)

lemma sort_mixed:
  "sort_stage ordinal_compare mixed_query [mixed_a, mixed_b, mixed_c]
     = [mixed_a, mixed_b, mixed_c]"
  by (simp add: sort_stage_def mixed_query_def cmp_mixed_items Array_sort_def
      CountAndMakeRun_def BinaryInsertionSort_def insert_pivot_def binary_search.simps
      mixed_a_def mixed_b_def mixed_c_def get_prop_def Let_def ordinal_compare_def
      Number_toString_def decimal_1 mixed_items_def)

lemma sort_unstable:
  "sort_stage ordinal_compare mixed_query unstable_records
     = [[(''id'', JStr ''r4'')],
        [(''id'', JStr ''r5''), (''f'', JStr ''1'')],
        [(''id'', JStr ''r0''), (''f'', JStr ''1''), (''g'', JStr ''x'')],
        [(''id'', JStr ''r1''), (''f'', JStr ''1''), (''g'', JStr ''y'')],
        [(''id'', JStr ''r2''), (''f'', JNum 1)],
        [(''id'', JStr ''r3''), (''f'', JStr ''1'')]]"
  by (simp add: sort_stage_def mixed_query_def cmp_mixed_items Array_sort_def
      CountAndMakeRun_def BinaryInsertionSort_def insert_pivot_def binary_search.simps
      unstable_records_def get_prop_def Let_def ordinal_compare_def
      Number_toString_def decimal_1 mixed_items_def)


text \<open>
  C5, as stated, fails in both of its parts on values that differ but convert to the same
  string: the number 1 and the string \<open>1\<close> differ at \<open>f\<close>, their conversions compare
  equal, and the comparator returns that 0 without looking at \<open>g\<close>. First, the pair order:
  \<open>mixed_a\<close> and \<open>mixed_c\<close> agree at \<open>f\<close> and differ at \<open>g\<close>, where \<open>mixed_c\<close> sorts first,
  yet the sort leaves \<open>mixed_a\<close> before \<open>mixed_c\<close>. Second, stability: in \<open>unstable_records\<close>
  the records \<open>r3\<close> and \<open>r5\<close> agree at both sort fields and \<open>r3\<close> comes first, yet the sort
  puts \<open>r5\<close> before \<open>r3\<close>.
\<close>

theorem sort_mixed_values_counterexample:
  "sort_stage ordinal_compare mixed_query [mixed_a, mixed_b, mixed_c]
     = [mixed_a, mixed_b, mixed_c]
   \<and> get_prop mixed_a ''f'' = get_prop mixed_c ''f''
   \<and> get_prop mixed_a ''g'' \<noteq> get_prop mixed_c ''g''
   \<and> spec_decide ordinal_compare \<lparr>field = ''g'', direction = None\<rparr> mixed_a mixed_c = 1
   \<and> compareRecords ordinal_compare mixed_items mixed_a mixed_c = 1
   \<and> sort_stage ordinal_compare mixed_query unstable_records
     = [[(''id'', JStr ''r4'')],
        [(''id'', JStr ''r5''), (''f'', JStr ''1'')],
        [(''id'', JStr ''r0''), (''f'', JStr ''1''), (''g'', JStr ''x'')],
        [(''id'', JStr ''r1''), (''f'', JStr ''1''), (''g'', JStr ''y'')],
        [(''id'', JStr ''r2''), (''f'', JNum 1)],
        [(''id'', JStr ''r3''), (''f'', JStr ''1'')]]
   \<and> equal_under mixed_items
        [(''id'', JStr ''r3''), (''f'', JStr ''1'')] [(''id'', JStr ''r5''), (''f'', JStr ''1'')]"
proof -
  have "get_prop mixed_a ''f'' = get_prop mixed_c ''f''"
    "get_prop mixed_a ''g'' \<noteq> get_prop mixed_c ''g''"
    "spec_decide ordinal_compare \<lparr>field = ''g'', direction = None\<rparr> mixed_a mixed_c = 1"
    "compareRecords ordinal_compare mixed_items mixed_a mixed_c = 1"
    by (simp_all add: cmp_mixed_items mixed_a_def mixed_c_def get_prop_def spec_decide_def
        ordinal_compare_def)
  moreover have "equal_under mixed_items
      [(''id'', JStr ''r3''), (''f'', JStr ''1'')] [(''id'', JStr ''r5''), (''f'', JStr ''1'')]"
    by (simp add: equal_under_def mixed_items_def get_prop_def)
  ultimately show ?thesis
    using sort_mixed sort_unstable by simp
qed

text \<open>
  C5, amended: for a non-empty list of sort items the comparator decides every pair of
  records by the first item at which their values differ: a missing value sorts before a
  present one when ascending and after it when descending, present values compare by the
  collation of their string conversions, and descending negates the result. The output of
  the sort stage is a permutation of its input. Where the comparator is consistent on the
  input, every pair of the output is in comparator order and records that agree at every
  sort field keep their relative order.
\<close>

theorem sort_stage_order:
  assumes "query_sort q = Some items" and "items \<noteq> []"
  shows "(\<forall>a b. compareRecords lc items a b
            = (case find (\<lambda>item. get_prop a (field item) \<noteq> get_prop b (field item)) items of
                 None \<Rightarrow> 0
               | Some item \<Rightarrow> spec_decide lc item a b))
    \<and> mset (sort_stage lc q records) = mset records
    \<and> (consistent_on (compareRecords lc items) records \<longrightarrow>
          sorted_wrt (\<lambda>a b. compareRecords lc items a b \<le> 0) (sort_stage lc q records)
          \<and> (\<forall>a. filter (equal_under items a) (sort_stage lc q records)
                  = filter (equal_under items a) records))"
proof -
  have st: "sort_stage lc q records = Array_sort (compareRecords lc items) records"
    using assms by (simp add: sort_stage_def)
  show ?thesis
    unfolding st
    by (intro conjI allI impI compareRecords_find mset_Array_sort stable_compareRecords
        sorted_Array_sort)
qed

lemma demo_sorted:
  "sort_stage ordinal_compare demo_sort_query demo_users
     = [[(''id'', JStr ''u4'')],
        [(''id'', JStr ''u1''), (''role'', JStr ''admin'')],
        [(''id'', JStr ''u3''), (''role'', JStr ''user'')],
        [(''id'', JStr ''u2''), (''role'', JStr ''user'')]]"
  by (simp add: sort_stage_def demo_sort_query_def demo_sort_items_def demo_users_def
      Array_sort_def CountAndMakeRun_def BinaryInsertionSort_def insert_pivot_def
      binary_search.simps get_prop_def Let_def ordinal_compare_def)

lemma demo_consistent: "consistent_on (compareRecords ordinal_compare demo_sort_items) demo_users"
  by code_simp

theorem sort_stage_order_witness:
  "sort_stage ordinal_compare demo_sort_query demo_users
     = [[(''id'', JStr ''u4'')],
        [(''id'', JStr ''u1''), (''role'', JStr ''admin'')],
        [(''id'', JStr ''u3''), (''role'', JStr ''user'')],
        [(''id'', JStr ''u2''), (''role'', JStr ''user'')]]
   \<and> consistent_on (compareRecords ordinal_compare demo_sort_items) demo_users
   \<and> sorted_wrt (\<lambda>a b. compareRecords ordinal_compare demo_sort_items a b \<le> 0)
        (sort_stage ordinal_compare demo_sort_query demo_users)
   \<and> filter (equal_under demo_sort_items [(''id'', JStr ''u2''), (''role'', JStr ''user'')])
        (sort_stage ordinal_compare demo_sort_query demo_users)
     = filter (equal_under demo_sort_items [(''id'', JStr ''u2''), (''role'', JStr ''user'')])
        demo_users"
proof -
  have q: "query_sort demo_sort_query = Some demo_sort_items"
    by (simp add: demo_sort_query_def)
  have ne: "demo_sort_items \<noteq> []"
    by (simp add: demo_sort_items_def)
  show ?thesis
    using sort_stage_order [OF q ne, of ordinal_compare demo_users] demo_consistent demo_sorted
    by blast
qed




end
